theory Spec2Isabelle
  imports Complex_Main
begin

section \<open>Python and numpy primitives used by the source\<close>

text \<open>
  The exceptions the modelled code can raise. A result is \<open>py_error + 'a\<close>, with
  \<open>Inl\<close> the exception. \<open>KeyError\<close> carries the missing dictionary key.
\<close>

datatype py_error = IndexError | KeyError nat | TypeError | ValueError

text \<open>
  Integer indexing of a Python list or a one-dimensional numpy array, \<^verbatim>\<open>xs[i]\<close>:
  a negative index counts from the end, an index outside \<open>-n \<le> i < n\<close> raises.
\<close>

definition py_index :: "'a list \<Rightarrow> int \<Rightarrow> py_error + 'a" where
  "py_index xs i =
     (if 0 \<le> i \<and> i < int (length xs) then Inr (xs ! nat i)
      else if i < 0 \<and> - int (length xs) \<le> i then Inr (xs ! nat (int (length xs) + i))
      else Inl IndexError)"

text \<open>Slicing \<^verbatim>\<open>xs[a:b]\<close>: negative bounds count from the end, and both are clamped.\<close>

definition py_clamp :: "nat \<Rightarrow> int \<Rightarrow> nat" where
  "py_clamp n i = (if i < 0 then nat (int n + i) else min n (nat i))"

definition py_slice :: "'a list \<Rightarrow> int \<Rightarrow> int \<Rightarrow> 'a list" where
  "py_slice xs a b = take (py_clamp (length xs) b - py_clamp (length xs) a)
                          (drop (py_clamp (length xs) a) xs)"

text \<open>
  \<^verbatim>\<open>range(0, stop, step)\<close> as a list, for a non-zero step (a zero step raises
  ValueError, which the callers check before).
\<close>

definition py_range0 :: "int \<Rightarrow> int \<Rightarrow> int list" where
  "py_range0 stop step =
     map (\<lambda>k. int k * step)
       [0 ..< nat (if 0 < step then (stop + step - 1) div step else (stop + step + 1) div step)]"

text \<open>A list of results evaluated left to right: the first exception wins.\<close>

fun collect :: "(py_error + 'a) list \<Rightarrow> py_error + 'a list" where
  "collect [] = Inr []"
| "collect (r # rs) =
     (case r of
        Inl e \<Rightarrow> Inl e
      | Inr v \<Rightarrow> (case collect rs of Inl e \<Rightarrow> Inl e | Inr vs \<Rightarrow> Inr (v # vs)))"

text \<open>\<^verbatim>\<open>np.maximum.accumulate\<close>: the running maximum.\<close>

fun running_max :: "nat \<Rightarrow> nat list \<Rightarrow> nat list" where
  "running_max m [] = []"
| "running_max m (x # xs) = max m x # running_max (max m x) xs"

definition maximum_accumulate :: "nat list \<Rightarrow> nat list" where
  "maximum_accumulate xs = (case xs of [] \<Rightarrow> [] | x # r \<Rightarrow> x # running_max x r)"

section \<open>The window splitter: \<^verbatim>\<open>Transformer.split_by_overlap\<close>\<close>

text \<open>
  The tokenizer's \<^verbatim>\<open>tokenize_with_index\<close> is an external collaborator; its result is a
  parameter of the model: the tokens, the subword flags (1 marks a continuation) and
  the index pairs, of which the code reads only the first component, the start offset.
\<close>

record tokenized =
  tokens :: "string list"
  tokens_sw :: "int list"
  tokens_idx :: "(int \<times> int) list"

text \<open>
  Lines 124 to 127: \<^verbatim>\<open>mask = np.array(tokens_sw) == 1\<close>,
  \<^verbatim>\<open>idx = np.where(~mask, np.arange(n), 0)\<close>, the running maximum of \<open>idx\<close>, and
  \<^verbatim>\<open>tokens_start[mask] = tokens_start[idx[mask]]\<close>, which raises IndexError when the
  boolean mask and the array differ in length.
\<close>

definition sw_mask :: "int list \<Rightarrow> bool list" where
  "sw_mask sw = map (\<lambda>f. f = 1) sw"

definition fill_idx :: "bool list \<Rightarrow> nat list" where
  "fill_idx msk =
     maximum_accumulate (map (\<lambda>(k, m). if \<not> m then k else 0) (zip [0 ..< length msk] msk))"

definition snap_starts :: "int list \<Rightarrow> int list \<Rightarrow> py_error + int list" where
  "snap_starts tokens_start sw =
     (if length sw \<noteq> length tokens_start then Inl IndexError
      else Inr (map (\<lambda>j. if sw_mask sw ! j then tokens_start ! (fill_idx (sw_mask sw) ! j)
                           else tokens_start ! j)
                  [0 ..< length tokens_start]))"

text \<open>
  Lines 129 to 144: the character ranges. \<open>n\<close> is \<^verbatim>\<open>len(tokens)\<close>, \<open>textlen\<close> is
  \<^verbatim>\<open>len(text)\<close>. A zero step makes \<^verbatim>\<open>range\<close> raise ValueError; an empty range makes
  \<^verbatim>\<open>seq_offsets[-1]\<close> raise IndexError.
\<close>

definition seq_offsets :: "int list \<Rightarrow> nat \<Rightarrow> int \<Rightarrow> int \<Rightarrow> int \<Rightarrow> py_error + (int \<times> int) list" where
  "seq_offsets ts n textlen token_step_size sequence_length =
     (if int n \<le> sequence_length then
        (case py_index ts 0 of Inl e \<Rightarrow> Inl e | Inr s \<Rightarrow> Inr [(s, textlen)])
      else if token_step_size = 0 then Inl ValueError
      else
        (case py_index (py_range0 (int n - sequence_length) token_step_size) (- 1) of
           Inl e \<Rightarrow> Inl e
         | Inr l \<Rightarrow>
            (case collect (map (\<lambda>x. case py_index ts x of
                                       Inl e \<Rightarrow> Inl e
                                     | Inr a \<Rightarrow> (case py_index ts (x + sequence_length) of
                                                   Inl e \<Rightarrow> Inl e
                                                 | Inr b \<Rightarrow> Inr (a, b)))
                             (py_range0 (int n - sequence_length) token_step_size)) of
               Inl e \<Rightarrow> Inl e
             | Inr offs \<Rightarrow>
                (case py_index ts (l + token_step_size) of
                   Inl e \<Rightarrow> Inl e
                 | Inr s \<Rightarrow> Inr (offs @ [(s, textlen)])))))"

text \<open>
  An example is the four-element list \<^verbatim>\<open>[i, start, stop, text[start:stop]]\<close> of lines
  151 and 152.
\<close>

type_synonym example = "nat \<times> int \<times> int \<times> string"

definition ex_start :: "example \<Rightarrow> int" where
  "ex_start w = fst (snd w)"

definition ex_stop :: "example \<Rightarrow> int" where
  "ex_stop w = fst (snd (snd w))"

definition examples_of :: "string \<Rightarrow> (int \<times> int) list \<Rightarrow> example list" where
  "examples_of text offs =
     map (\<lambda>(i, (start, stop)). (i, start, stop, py_slice text start stop))
       (zip [0 ..< length offs] offs)"

definition split_by_overlap :: "tokenized \<Rightarrow> string \<Rightarrow> int \<Rightarrow> int \<Rightarrow> py_error + example list" where
  "split_by_overlap tk text token_step_size sequence_length =
     (if length (tokens_idx tk) = 0 then Inr []
      else
        (case snap_starts (map fst (tokens_idx tk)) (tokens_sw tk) of
           Inl e \<Rightarrow> Inl e
         | Inr ts \<Rightarrow>
            (case seq_offsets ts (length (tokens tk)) (int (length text))
                    token_step_size sequence_length of
               Inl e \<Rightarrow> Inl e
             | Inr offs \<Rightarrow> Inr (examples_of text offs))))"


text \<open>
  The token \<open>k\<close> is the nearest token at or before \<open>j\<close> that is not a subword
  continuation (token 0 when there is none): the word start that token \<open>j\<close> snaps to.
\<close>

definition nearest_start :: "int list \<Rightarrow> nat \<Rightarrow> nat \<Rightarrow> bool" where
  "nearest_start sw j k \<longleftrightarrow>
     k \<le> j \<and> (sw ! k \<noteq> 1 \<or> k = 0) \<and> (\<forall>k' \<in> {k <.. j}. sw ! k' = 1)"

section \<open>The segment splitter: \<^verbatim>\<open>Transformer._split_text_into_segments\<close>\<close>

text \<open>
  The result of the tokenizer's \<^verbatim>\<open>encode\<close>, an external collaborator. The fields
  \<^verbatim>\<open>attention_mask\<close> and \<^verbatim>\<open>offsets\<close> carry the prefix \<open>enc_\<close> here, as the feature
  record below has fields of the same names.
\<close>

record encoding =
  ids :: "nat list"
  enc_attention_mask :: "int list"
  type_ids :: "nat list"
  words :: "nat option list"
  enc_offsets :: "(int \<times> int) list"

text \<open>
  A field of a feature is a Python list, as the dataclass \<^verbatim>\<open>InputFeatures\<close> declares and
  \<^verbatim>\<open>_split_text_into_segments\<close> builds, or a numpy array, as the indexing in
  \<^verbatim>\<open>_logits_to_standoff\<close> expects: the two behave differently under \<^verbatim>\<open>== 1\<close> and
  under \<^verbatim>\<open>[i, p]\<close>. The attention mask is a list or a one-dimensional array; offsets and
  lengths are a list, a one-dimensional or a two-dimensional array (a list of rows).
\<close>

datatype mask_repr = MaskList "int list" | MaskArray "int list"

datatype 'a pyarr = PyList "'a list" | NdArray1 "'a list" | NdArray2 "'a list list"

text \<open>
  The dataclass \<^verbatim>\<open>InputFeatures\<close> (without \<^verbatim>\<open>label_ids\<close>, which the code never sets).
  The lengths field has type \<open>'l\<close>: the array itself where a feature is a fresh value,
  an address into a store of arrays where the code mutates the array through the feature.
\<close>

record 'l InputFeatures =
  input_ids :: "nat list"
  attention_mask :: mask_repr
  token_type_ids :: "nat list"
  input_subwords :: "bool list"
  offsets :: "int pyarr"
  lengths :: 'l

text \<open>
  Lines 164 to 167: \<^verbatim>\<open>[False] + [words[i + 1] == words[i] for i in range(len(words) - 1)]\<close>.
\<close>

definition token_sw_of :: "nat option list \<Rightarrow> bool list" where
  "token_sw_of ws = False # map (\<lambda>i. ws ! (i + 1) = ws ! i) [0 ..< length ws - 1]"

text \<open>
  \<^verbatim>\<open>np.unique(xs, return_index=True)[1]\<close>: for each distinct value, in ascending order of
  the values, the index of its first occurrence.
\<close>

fun first_index :: "'a list \<Rightarrow> 'a \<Rightarrow> nat" where
  "first_index [] v = 0"
| "first_index (x # xs) v = (if x = v then 0 else Suc (first_index xs v))"

definition np_unique_index :: "int list \<Rightarrow> nat list" where
  "np_unique_index xs = map (first_index xs) (sort (remdups xs))"

text \<open>Python's \<^verbatim>\<open>int(q)\<close> on a fraction: truncation towards zero.\<close>

definition py_int :: "rat \<Rightarrow> int" where
  "py_int q = (if 0 \<le> q then \<lfloor>q\<rfloor> else \<lceil>q\<rceil>)"

text \<open>
  Lines 176 to 182: the length of each subsequence, from the overlap fraction. The
  fraction is a Python float in the source and a rational here.
\<close>

definition seq_len_of :: "int \<Rightarrow> rat option \<Rightarrow> int" where
  "seq_len_of max_len_single_sentence feature_overlap =
     (case feature_overlap of
        None \<Rightarrow> max_len_single_sentence
      | Some f \<Rightarrow> py_int ((1 - f) * of_int max_len_single_sentence))"

text \<open>
  Lines 170 to 173: \<^verbatim>\<open>start_idx = np.array(encoded.offsets)\<close> and
  \<^verbatim>\<open>start_idx[~np.array(token_sw), :]\<close>. With no token the array is one-dimensional and
  the two-dimensional index raises IndexError, as does a boolean mask of another length.
\<close>

definition word_start_rows :: "(int \<times> int) list \<Rightarrow> bool list \<Rightarrow> py_error + (int \<times> int) list" where
  "word_start_rows offs sw =
     (if offs = [] \<or> length sw \<noteq> length offs then Inl IndexError
      else Inr (map (\<lambda>k. offs ! k) (filter (\<lambda>k. \<not> sw ! k) [0 ..< length offs])))"

text \<open>
  Lines 176 to 201: the character range \<^verbatim>\<open>[seq_start_offset, new_seq_idx[i + 1, 0])\<close> of
  every subsequence. \<open>seq_len\<close> is bound as in the source, which never reads it again.
  \<^verbatim>\<open>np.floor(start / max_len)\<close> is the integer quotient.
\<close>

definition segment_bounds :: "encoding \<Rightarrow> int \<Rightarrow> int \<Rightarrow> rat option \<Rightarrow> py_error + (int \<times> int) list" where
  "segment_bounds encoded max_len_single_sentence textlen feature_overlap =
     (case word_start_rows (enc_offsets encoded) (token_sw_of (words encoded)) of
        Inl e \<Rightarrow> Inl e
      | Inr start_idx \<Rightarrow>
         (let seq_len = seq_len_of max_len_single_sentence feature_overlap;
              new_seq_idx = map (\<lambda>k. fst (start_idx ! k))
                 (np_unique_index (map (\<lambda>r. fst r div max_len_single_sentence) start_idx));
              n_subseq = length new_seq_idx;
              stacked = new_seq_idx @ [textlen]
          in Inr (map (\<lambda>i. (stacked ! i, stacked ! (i + 1))) [0 ..< n_subseq])))"

text \<open>
  Lines 199 to 219: every subsequence is encoded again (\<open>encode\<close> stands for the
  tokenizer's \<^verbatim>\<open>encode\<close> followed by \<^verbatim>\<open>pad\<close>) and becomes a feature whose fields are
  Python lists.
\<close>

definition segment_feature :: "(string \<Rightarrow> encoding) \<Rightarrow> string \<Rightarrow> int \<times> int \<Rightarrow> (int pyarr) InputFeatures" where
  "segment_feature encode text b =
     (let seq_start_offset = fst b;
          encoded = encode (py_slice text seq_start_offset (snd b))
      in \<lparr>input_ids = ids encoded,
          attention_mask = MaskList (enc_attention_mask encoded),
          token_type_ids = type_ids encoded,
          input_subwords = token_sw_of (words encoded),
          offsets = PyList (map (\<lambda>t. fst t + seq_start_offset) (enc_offsets encoded)),
          lengths = PyList (map (\<lambda>t. snd t - fst t) (enc_offsets encoded))\<rparr>)"

definition split_text_into_segments ::
  "(string \<Rightarrow> encoding) \<Rightarrow> encoding \<Rightarrow> int \<Rightarrow> string \<Rightarrow> rat option
     \<Rightarrow> py_error + (int pyarr) InputFeatures list" where
  "split_text_into_segments encode encoded max_len_single_sentence text feature_overlap =
     (case segment_bounds encoded max_len_single_sentence (int (length text)) feature_overlap of
        Inl e \<Rightarrow> Inl e
      | Inr bounds \<Rightarrow> Inr (map (segment_feature encode text) bounds))"

section \<open>Span reconstruction: \<^verbatim>\<open>Transformer._logits_to_standoff\<close>\<close>

text \<open>
  \<^verbatim>\<open>lengths[j - 1] += lengths[j]\<close> on a list or array of \<open>n\<close> entries: for \<open>j = 0\<close>
  the index \<open>-1\<close> is the last entry; an index \<open>j \<ge> n\<close> raises IndexError. On a
  two-dimensional array the entries are rows, added elementwise.
\<close>

definition iadd_at :: "('a \<Rightarrow> 'a \<Rightarrow> 'a) \<Rightarrow> 'a list \<Rightarrow> nat \<Rightarrow> py_error + 'a list" where
  "iadd_at add xs j =
     (if length xs \<le> j then Inl IndexError
      else if j = 0 then Inr (xs[length xs - 1 := add (xs ! (length xs - 1)) (xs ! 0)])
      else Inr (xs[j - 1 := add (xs ! (j - 1)) (xs ! j)]))"

fun lengths_iadd :: "int pyarr \<Rightarrow> nat \<Rightarrow> py_error + int pyarr" where
  "lengths_iadd (PyList xs) j =
     (case iadd_at (+) xs j of Inl e \<Rightarrow> Inl e | Inr ys \<Rightarrow> Inr (PyList ys))"
| "lengths_iadd (NdArray1 xs) j =
     (case iadd_at (+) xs j of Inl e \<Rightarrow> Inl e | Inr ys \<Rightarrow> Inr (NdArray1 ys))"
| "lengths_iadd (NdArray2 rows) j =
     (case iadd_at (\<lambda>r s. map (\<lambda>(x, y). x + y) (zip r s)) rows j of
        Inl e \<Rightarrow> Inl e
      | Inr ys \<Rightarrow> Inr (NdArray2 ys))"

text \<open>
  Lines 261 to 264 (and lines 348 to 351 of \<^verbatim>\<open>model.py\<close>):
  \<^verbatim>\<open>for j in reversed(range(len(subwords))): if subwords[j]: lengths[j - 1] += lengths[j]\<close>.
  \<open>extend_loop sw k a\<close> runs the indices \<open>k - 1\<close> down to 0. The array is mutated in
  place, so an exception leaves the additions made before it: the result is the array
  and the exception, if any.
\<close>

fun extend_loop :: "bool list \<Rightarrow> nat \<Rightarrow> int pyarr \<Rightarrow> int pyarr \<times> py_error option" where
  "extend_loop sw 0 a = (a, None)"
| "extend_loop sw (Suc j) a =
     (if sw ! j then
        (case lengths_iadd a j of
           Inl e \<Rightarrow> (a, Some e)
         | Inr a' \<Rightarrow> extend_loop sw j a')
      else extend_loop sw j a)"

definition extend_lengths :: "bool list \<Rightarrow> int pyarr \<Rightarrow> int pyarr \<times> py_error option" where
  "extend_lengths subwords a = extend_loop subwords (length subwords) a"

text \<open>
  \<^verbatim>\<open>np.argmax\<close> and \<^verbatim>\<open>np.max\<close> along the last axis: the first index of the largest
  score, and that score; ValueError on an empty axis. Scores are of any linear order.
\<close>

definition argmax_row :: "('a::linorder) list \<Rightarrow> py_error + nat \<times> 'a" where
  "argmax_row xs =
     (case xs of
        [] \<Rightarrow> Inl ValueError
      | x # r \<Rightarrow> Inr (first_index xs (fold max r x), fold max r x))"

text \<open>
  Line 272: \<^verbatim>\<open>np.where((mask == 1) & idxObject)[0]\<close>. For a Python list \<^verbatim>\<open>mask == 1\<close>
  is the single value False, and the conjunction is False everywhere. For an array the
  comparison is elementwise and the conjunction broadcasts: equal lengths, or one of
  the two of length 1, and ValueError otherwise.
\<close>

definition broadcast_and :: "bool list \<Rightarrow> bool list \<Rightarrow> py_error + bool list" where
  "broadcast_and a b =
     (if length a = length b then Inr (map (\<lambda>(x, y). x \<and> y) (zip a b))
      else if length a = 1 then Inr (map (\<lambda>y. hd a \<and> y) b)
      else if length b = 1 then Inr (map (\<lambda>x. x \<and> hd b) a)
      else Inl ValueError)"

definition np_where :: "bool list \<Rightarrow> nat list" where
  "np_where bs = filter (\<lambda>p. bs ! p) [0 ..< length bs]"

fun idx_keep :: "mask_repr \<Rightarrow> bool list \<Rightarrow> py_error + nat list" where
  "idx_keep (MaskList m) idxObject = Inr (np_where (map (\<lambda>_. False) idxObject))"
| "idx_keep (MaskArray m) idxObject =
     (case broadcast_and (map (\<lambda>x. x = 1) m) idxObject of
        Inl e \<Rightarrow> Inl e
      | Inr bs \<Rightarrow> Inr (np_where bs))"

text \<open>
  \<^verbatim>\<open>a[i, p]\<close>: TypeError on a Python list, IndexError on a one-dimensional array (too
  many indices) and outside a two-dimensional one.
\<close>

fun index2 :: "'a pyarr \<Rightarrow> nat \<Rightarrow> nat \<Rightarrow> py_error + 'a" where
  "index2 (PyList xs) i p = Inl TypeError"
| "index2 (NdArray1 xs) i p = Inl IndexError"
| "index2 (NdArray2 rows) i p =
     (if i < length rows \<and> p < length (rows ! i) then Inr (rows ! i ! p) else Inl IndexError)"

definition nth_checked :: "'a list \<Rightarrow> nat \<Rightarrow> py_error + 'a" where
  "nth_checked xs p = (if p < length xs then Inr (xs ! p) else Inl IndexError)"

text \<open>
  A candidate span is the row \<^verbatim>\<open>[pred_prob[i, p], pred_label[p], offsets[i, p], lengths[i, p]]\<close>
  of lines 276 to 279; its elements are evaluated left to right.
\<close>

type_synonym 'a span = "'a \<times> string \<times> int \<times> int"

definition span_label :: "'a span \<Rightarrow> string" where
  "span_label s = fst (snd s)"

definition span_offset :: "'a span \<Rightarrow> int" where
  "span_offset s = fst (snd (snd s))"

definition emit_row ::
  "nat \<Rightarrow> 'a list \<Rightarrow> string list \<Rightarrow> int pyarr \<Rightarrow> int pyarr \<Rightarrow> nat \<Rightarrow> py_error + 'a span" where
  "emit_row i probs pred_label offs lens p =
     (case nth_checked probs p of
        Inl e \<Rightarrow> Inl e
      | Inr c \<Rightarrow>
         (case nth_checked pred_label p of
            Inl e \<Rightarrow> Inl e
          | Inr l \<Rightarrow>
             (case index2 offs i p of
                Inl e \<Rightarrow> Inl e
              | Inr off \<Rightarrow>
                 (case index2 lens i p of
                    Inl e \<Rightarrow> Inl e
                  | Inr len \<Rightarrow> Inr (c, l, off, len)))))"

text \<open>
  Lines 266 to 281 for window \<open>i\<close>: the label lookup in the dictionary \<^verbatim>\<open>id2label\<close>
  (KeyError on a missing id), \<^verbatim>\<open>idxObject\<close>, \<^verbatim>\<open>idxKeep\<close> and the emitted rows.
\<close>

definition window_labels ::
  "(nat \<rightharpoonup> string) \<Rightarrow> string \<Rightarrow> nat \<Rightarrow> nat list \<Rightarrow> 'a list \<Rightarrow> mask_repr \<Rightarrow> int pyarr \<Rightarrow> int pyarr
     \<Rightarrow> py_error + 'a span list" where
  "window_labels id2label ignore_label i pred_id probs msk offs lens =
     (case collect (map (\<lambda>p. case id2label p of None \<Rightarrow> Inl (KeyError p) | Some l \<Rightarrow> Inr l)
                      pred_id) of
        Inl e \<Rightarrow> Inl e
      | Inr pred_label \<Rightarrow>
         (case idx_keep msk (map (\<lambda>p. p = ignore_label) pred_label) of
            Inl e \<Rightarrow> Inl e
          | Inr idxKeep \<Rightarrow> collect (map (emit_row i probs pred_label offs lens) idxKeep)))"

text \<open>
  The lengths arrays live in a store; a feature holds the address of its array, so the
  additions of the loop are seen by every later reader of the feature.
\<close>

type_synonym store = "nat \<Rightarrow> int pyarr"

text \<open>
  Lines 250 to 281: the loop over the windows, from window \<open>i\<close> on. \<^verbatim>\<open>inputs[i]\<close> raises
  IndexError beyond the list of features. The store is returned in every case.
\<close>

fun standoff_windows ::
  "(nat \<rightharpoonup> string) \<Rightarrow> string \<Rightarrow> nat InputFeatures list \<Rightarrow> nat \<Rightarrow> (nat list \<times> 'a list) list
     \<Rightarrow> store \<Rightarrow> store \<times> (py_error + 'a span list)" where
  "standoff_windows id2label ignore_label inputs i [] st = (st, Inr [])"
| "standoff_windows id2label ignore_label inputs i (row # rest) st =
     (if length inputs \<le> i then (st, Inl IndexError)
      else
        (case extend_lengths (input_subwords (inputs ! i)) (st (lengths (inputs ! i))) of
           (a, Some e) \<Rightarrow> (st(lengths (inputs ! i) := a), Inl e)
         | (a, None) \<Rightarrow>
            (case window_labels id2label ignore_label i (fst row) (snd row)
                    (attention_mask (inputs ! i)) (offsets (inputs ! i)) a of
               Inl e \<Rightarrow> (st(lengths (inputs ! i) := a), Inl e)
             | Inr rows \<Rightarrow>
                (case standoff_windows id2label ignore_label inputs (Suc i) rest
                        (st(lengths (inputs ! i) := a)) of
                   (st', Inl e) \<Rightarrow> (st', Inl e)
                 | (st', Inr later) \<Rightarrow> (st', Inr (rows @ later))))))"

text \<open>
  Lines 289 to 294: the offsets are reversed, \<^verbatim>\<open>np.unique\<close> gives the first index of
  every distinct offset in the reversed list, \<^verbatim>\<open>len(offsets) - unique_idx - 1\<close> turns it
  into an index of the original list, and the rows at these indices are kept.
\<close>

definition unique_last_idx :: "int list \<Rightarrow> nat list" where
  "unique_last_idx offs = map (\<lambda>k. length offs - k - 1) (np_unique_index (rev offs))"

definition dedup_labels :: "'a span list \<Rightarrow> 'a span list" where
  "dedup_labels labels = map (\<lambda>i. labels ! i) (unique_last_idx (map span_offset labels))"

text \<open>
  Lines 236 to 296. \<open>logits\<close> is the three-dimensional array of scores: windows,
  positions, labels.
\<close>

definition logits_to_standoff ::
  "(nat \<rightharpoonup> string) \<Rightarrow> ('a::linorder) list list list \<Rightarrow> nat InputFeatures list \<Rightarrow> string \<Rightarrow> store
     \<Rightarrow> store \<times> (py_error + 'a span list)" where
  "logits_to_standoff id2label logits inputs ignore_label st =
     (case collect (map (\<lambda>win. collect (map argmax_row win)) logits) of
        Inl e \<Rightarrow> (st, Inl e)
      | Inr pred \<Rightarrow>
         (case standoff_windows id2label ignore_label inputs 0
                 (map (\<lambda>win. (map fst win, map snd win)) pred) st of
            (st', Inl e) \<Rightarrow> (st', Inl e)
          | (st', Inr labels) \<Rightarrow> (st', Inr (dedup_labels labels))))"

section \<open>The deduplication of \<^verbatim>\<open>predict\<close> in \<^verbatim>\<open>model.py\<close>\<close>

text \<open>
  Lines 365 to 374 of \<^verbatim>\<open>model.py\<close> work on three parallel sequences: the predictions
  (the rows of a two-dimensional array), the lengths and the offsets (Python lists). The
  indices \<^verbatim>\<open>unique_idx\<close> are computed as in \<^verbatim>\<open>transformer.py\<close>. Offsets and lengths
  are filtered by \<^verbatim>\<open>[x for i, x in enumerate(xs) if i in unique_idx]\<close>, which keeps the
  order of the input; the predictions are taken by \<^verbatim>\<open>preds[unique_idx, :]\<close>, in the order
  of \<^verbatim>\<open>unique_idx\<close>, and a row index beyond the array raises IndexError.
\<close>

definition select_unique :: "nat list \<Rightarrow> 'x list \<Rightarrow> 'x list" where
  "select_unique unique_idx xs =
     map (\<lambda>i. xs ! i) (filter (\<lambda>i. i \<in> set unique_idx) [0 ..< length xs])"


section \<open>The whole call: \<^verbatim>\<open>Transformer.predict\<close> of \<^verbatim>\<open>transformer.py\<close>\<close>

text \<open>
  Lines 298 to 320. The tokenizer and the network are external: \<open>tokenize\<close> is
  \<^verbatim>\<open>encode(text, add_special_tokens=False)\<close>, \<open>encode\<close> is \<^verbatim>\<open>encode\<close> followed by
  \<^verbatim>\<open>pad\<close>, and \<open>model\<close> gives the array of scores for the features. The features are
  fresh objects: the lengths array of feature \<open>a\<close> is put at address \<open>a\<close> of the store.
  The ignore label is \<^verbatim>\<open>'O'\<close>.
\<close>

definition feature_at :: "(int pyarr) InputFeatures list \<Rightarrow> nat \<Rightarrow> nat InputFeatures" where
  "feature_at inputs a =
     \<lparr>input_ids = input_ids (inputs ! a), attention_mask = attention_mask (inputs ! a),
      token_type_ids = token_type_ids (inputs ! a), input_subwords = input_subwords (inputs ! a),
      offsets = offsets (inputs ! a), lengths = a\<rparr>"

definition predict ::
  "(string \<Rightarrow> encoding) \<Rightarrow> (string \<Rightarrow> encoding) \<Rightarrow> int
     \<Rightarrow> ((int pyarr) InputFeatures list \<Rightarrow> ('a::linorder) list list list) \<Rightarrow> (nat \<rightharpoonup> string)
     \<Rightarrow> string \<Rightarrow> rat option \<Rightarrow> py_error + 'a span list" where
  "predict tokenize encode max_len_single_sentence model id2label text feature_overlap =
     (case split_text_into_segments encode (tokenize text) max_len_single_sentence text
             feature_overlap of
        Inl e \<Rightarrow> Inl e
      | Inr inputs \<Rightarrow>
          snd (logits_to_standoff id2label (model inputs)
                 (map (feature_at inputs) [0 ..< length inputs]) ''O''
                 (\<lambda>a. if a < length inputs then lengths (inputs ! a) else PyList [])))"


section \<open>Auxiliary notions of the proofs\<close>

text \<open>
  The index that \<^verbatim>\<open>len(offsets) - unique_idx - 1\<close> assigns to the value \<open>v\<close>: the index
  of the last occurrence of \<open>v\<close> in the list.
\<close>

definition last_index :: "int list \<Rightarrow> int \<Rightarrow> nat" where
  "last_index offs v = length offs - first_index (rev offs) v - 1"


section \<open>Concrete inputs\<close>

text \<open>
  The text \<^verbatim>\<open>a bc de\<close> in five tokens, two of them subword continuations; a text with
  a leading blank and one token; a text with two leading blanks and two tokens.
\<close>

definition tk_demo :: tokenized where
  "tk_demo = \<lparr>tokens = [''a'', ''b'', ''c'', ''d'', ''e''], tokens_sw = [0, 0, 1, 0, 1],
              tokens_idx = [(0, 1), (2, 3), (3, 4), (5, 6), (6, 7)]\<rparr>"

definition tk_lead :: tokenized where
  "tk_lead = \<lparr>tokens = [''a''], tokens_sw = [0], tokens_idx = [(1, 2)]\<rparr>"

definition tk_lead2 :: tokenized where
  "tk_lead2 = \<lparr>tokens = [''hi'', ''yo''], tokens_sw = [0, 0], tokens_idx = [(2, 4), (5, 7)]\<rparr>"

definition tk_empty :: tokenized where
  "tk_empty = \<lparr>tokens = [], tokens_sw = [], tokens_idx = []\<rparr>"


text \<open>
  One window of two positions and two labels: position 0 is predicted as label 1 (NAME),
  position 1 as label 0 (O). The feature is given once with numpy arrays (offsets and
  lengths two-dimensional, as the index \<^verbatim>\<open>[i, p]\<close> needs) and once with Python lists
  only, as \<^verbatim>\<open>_split_text_into_segments\<close> builds it; in the second the second token is a
  subword continuation.
\<close>

definition id2label_demo :: "nat \<rightharpoonup> string" where
  "id2label_demo = [0 \<mapsto> ''O'', 1 \<mapsto> ''NAME'']"

definition logits_demo :: "int list list list" where
  "logits_demo = [[[0, 1], [1, 0]]]"

definition inputs_np :: "nat InputFeatures list" where
  "inputs_np = [\<lparr>input_ids = [7, 8], attention_mask = MaskArray [1, 1], token_type_ids = [0, 0],
                 input_subwords = [False, False], offsets = NdArray2 [[0, 5]], lengths = 0\<rparr>]"

definition store_np :: store where
  "store_np = (\<lambda>_. NdArray2 [[4, 5]])"

definition inputs_list :: "nat InputFeatures list" where
  "inputs_list = [\<lparr>input_ids = [7, 8], attention_mask = MaskList [1, 1], token_type_ids = [0, 0],
                   input_subwords = [False, True], offsets = PyList [0, 4], lengths = 0\<rparr>]"

definition store_list :: store where
  "store_list = (\<lambda>_. PyList [4, 2])"

text \<open>
  The encoding of the text \<^verbatim>\<open>ab cdef gh\<close>: four tokens in three words, the third token
  a continuation of the second.
\<close>

definition enc_demo :: encoding where
  "enc_demo = \<lparr>ids = [1, 2, 3, 4], enc_attention_mask = [1, 1, 1, 1], type_ids = [0, 0, 0, 0],
               words = [Some 0, Some 1, Some 1, Some 2],
               enc_offsets = [(0, 2), (3, 5), (5, 7), (8, 10)]\<rparr>"

text \<open>
  The encoding of a text without tokens, and a tokenizer and a network that are
  constant: the first returns that encoding, the second returns no scores.
\<close>

definition enc_empty :: encoding where
  "enc_empty = \<lparr>ids = [], enc_attention_mask = [], type_ids = [], words = [], enc_offsets = []\<rparr>"

definition no_scores :: "(int pyarr) InputFeatures list \<Rightarrow> int list list list" where
  "no_scores inputs = []"

text \<open>
  A network that scores label 1 (NAME) highest at the first position of every window
  and label 0 (O) at the second, and a tokenizer that returns the encoding \<open>enc_demo\<close>
  above for every text.
\<close>

definition scores_demo :: "(int pyarr) InputFeatures list \<Rightarrow> int list list list" where
  "scores_demo inputs = map (\<lambda>f. [[0, 1], [1, 0]]) inputs"


section \<open>Properties of the window splitter\<close>

subsection \<open>The forward fill\<close>

lemma length_running_max: "length (running_max m xs) = length xs"
  by (induction xs arbitrary: m) auto

lemma running_max_nth:
  "j < length xs \<Longrightarrow> running_max m xs ! j = Max (insert m (set (take (Suc j) xs)))"
proof (induction xs arbitrary: m j)
  case Nil
  then show ?case by simp
next
  case (Cons x xs)
  show ?case
  proof (cases j)
    case 0
    then show ?thesis by (simp add: max.commute)
  next
    case (Suc k)
    with Cons.prems have k: "k < length xs" by simp
    have "running_max m (x # xs) ! j = running_max (max m x) xs ! k"
      using Suc by simp
    also have "\<dots> = Max (insert (max m x) (set (take (Suc k) xs)))"
      using Cons.IH[OF k] .
    also have "\<dots> = Max (insert m (insert x (set (take (Suc k) xs))))"
      by (cases "set (take (Suc k) xs) = {}") (simp_all add: max.assoc)
    finally show ?thesis using Suc by simp
  qed
qed

lemma length_maximum_accumulate: "length (maximum_accumulate xs) = length xs"
  by (cases xs) (auto simp: maximum_accumulate_def length_running_max)

lemma maximum_accumulate_nth:
  assumes j: "j < length xs"
  shows "maximum_accumulate xs ! j = Max (set (take (Suc j) xs))"
proof (cases xs)
  case Nil
  then show ?thesis using j by simp
next
  case (Cons x r)
  show ?thesis
  proof (cases j)
    case 0
    then show ?thesis using Cons by (simp add: maximum_accumulate_def)
  next
    case (Suc k)
    then have "k < length r" using j Cons by simp
    then show ?thesis using Cons Suc
      by (simp add: maximum_accumulate_def running_max_nth)
  qed
qed

lemma length_fill_idx: "length (fill_idx msk) = length msk"
  by (simp add: fill_idx_def length_maximum_accumulate)

lemma fill_idx_nth:
  assumes "j < length msk"
  shows "fill_idx msk ! j = Max ((\<lambda>k. if \<not> msk ! k then k else 0) ` {..j})"
proof -
  let ?xs = "map (\<lambda>(k, m). if \<not> m then k else 0) (zip [0 ..< length msk] msk)"
  have "set (take (Suc j) ?xs) = (\<lambda>k. if \<not> msk ! k then k else 0) ` {..j}"
  proof -
    have "take (Suc j) ?xs = map (\<lambda>k. if \<not> msk ! k then k else 0) [0 ..< Suc j]"
      using assms by (intro nth_equalityI) (simp_all del: upt_Suc)
    then show ?thesis
      by (simp add: atMost_upto lessThan_Suc_atMost[symmetric] del: upt_Suc)
  qed
  then show ?thesis
    using assms by (simp add: fill_idx_def maximum_accumulate_nth)
qed

lemma fill_idx_le:
  assumes "j < length msk"
  shows "fill_idx msk ! j \<le> j"
proof -
  have "Max ((\<lambda>k. if \<not> msk ! k then k else 0) ` {..j}) \<le> j"
    by (rule Max.boundedI) auto
  then show ?thesis unfolding fill_idx_nth[OF assms] .
qed

lemma fill_idx_mono:
  assumes "i \<le> j" "j < length msk"
  shows "fill_idx msk ! i \<le> fill_idx msk ! j"
proof -
  have "(\<lambda>k. if \<not> msk ! k then k else 0) ` {..i} \<subseteq> (\<lambda>k. if \<not> msk ! k then k else 0) ` {..j}"
    using assms by auto
  then have "Max ((\<lambda>k. if \<not> msk ! k then k else 0) ` {..i})
      \<le> Max ((\<lambda>k. if \<not> msk ! k then k else 0) ` {..j})"
    by (rule Max_mono) auto
  moreover have "i < length msk" using assms by simp
  ultimately show ?thesis
    by (simp only: fill_idx_nth[OF assms(2)] fill_idx_nth[OF \<open>i < length msk\<close>])
qed

lemma fill_idx_ge:
  assumes "k \<le> j" "j < length msk" "\<not> msk ! k"
  shows "k \<le> fill_idx msk ! j"
proof -
  have "k \<in> (\<lambda>k. if \<not> msk ! k then k else 0) ` {..j}"
    using assms by force
  then have "k \<le> Max ((\<lambda>k. if \<not> msk ! k then k else 0) ` {..j})"
    by (intro Max_ge) auto
  then show ?thesis unfolding fill_idx_nth[OF assms(2)] .
qed

lemma fill_idx_self: "j < length msk \<Longrightarrow> \<not> msk ! j \<Longrightarrow> fill_idx msk ! j = j"
  using fill_idx_ge[of j j msk] fill_idx_le[of j msk] by simp

lemma fill_idx_cases:
  assumes "j < length msk"
  shows "fill_idx msk ! j = 0 \<or> \<not> msk ! (fill_idx msk ! j)"
proof -
  have "Max ((\<lambda>k. if \<not> msk ! k then k else 0) ` {..j}) \<in> (\<lambda>k. if \<not> msk ! k then k else 0) ` {..j}"
    by (rule Max_in) auto
  then obtain k where "k \<le> j" "fill_idx msk ! j = (if \<not> msk ! k then k else 0)"
    unfolding fill_idx_nth[OF assms, symmetric] by blast
  then show ?thesis by (cases "msk ! k") auto
qed

lemma snap_starts_Inr:
  assumes "length sw = length ts"
  shows "snap_starts ts sw = Inr (map (\<lambda>j. ts ! (fill_idx (sw_mask sw) ! j)) [0 ..< length ts])"
proof -
  have "length (sw_mask sw) = length ts" using assms by (simp add: sw_mask_def)
  then show ?thesis
    using assms by (simp add: snap_starts_def fill_idx_self)
qed

lemma snapped_nearest:
  assumes "length sw = length ts" "j < length ts"
  shows "nearest_start sw j (fill_idx (sw_mask sw) ! j)"
proof -
  let ?m = "sw_mask sw"
  have len: "length ?m = length ts" using assms by (simp add: sw_mask_def)
  have nth: "\<And>k. k < length ts \<Longrightarrow> ?m ! k \<longleftrightarrow> sw ! k = 1"
    using assms by (simp add: sw_mask_def)
  have jm: "j < length ?m" using len assms by simp
  have le: "fill_idx ?m ! j \<le> j" by (rule fill_idx_le[OF jm])
  have c: "sw ! (fill_idx ?m ! j) \<noteq> 1 \<or> fill_idx ?m ! j = 0"
    using fill_idx_cases[OF jm] nth[of "fill_idx ?m ! j"] le assms by auto
  have "\<forall>k' \<in> {fill_idx ?m ! j <.. j}. sw ! k' = 1"
  proof
    fix k' assume k': "k' \<in> {fill_idx ?m ! j <.. j}"
    show "sw ! k' = 1"
    proof (rule ccontr)
      assume "sw ! k' \<noteq> 1"
      then have "\<not> ?m ! k'" using nth[of k'] k' assms by simp
      then have "k' \<le> fill_idx ?m ! j" using fill_idx_ge[of k' j ?m] k' jm by simp
      then show False using k' by simp
    qed
  qed
  then show ?thesis using le c by (simp add: nearest_start_def)
qed

subsection \<open>The character ranges\<close>

lemma collect_map_Inr:
  "(\<And>x. x \<in> set xs \<Longrightarrow> f x = Inr (g x)) \<Longrightarrow> collect (map f xs) = Inr (map g xs)"
  by (induction xs) auto

lemma collect_Inr_elem:
  "collect rs = Inr ys \<Longrightarrow> y \<in> set ys \<Longrightarrow> Inr y \<in> set rs"
  by (induction rs arbitrary: ys) (auto split: sum.splits)

lemma py_index_in_set: "py_index xs i = Inr v \<Longrightarrow> v \<in> set xs"
  by (auto simp: py_index_def split: if_splits)

lemma range_count:
  fixes S L :: int and n :: nat
  assumes "L < int n" "1 \<le> S" "S \<le> L"
  defines "c \<equiv> nat ((int n - L + S - 1) div S)"
  shows "1 \<le> c" and "int c * S < int n" and "(int c - 1) * S + L < int n"
    and "int n - L \<le> int c * S"
proof -
  let ?a = "int n - L + S - 1"
  let ?q = "?a div S"
  have Spos: "0 < S" using assms by simp
  have qS: "?q * S + ?a mod S = ?a" by simp
  have m0: "0 \<le> ?a mod S" and m1: "?a mod S < S"
    using Spos by simp_all
  have "S div S \<le> ?q"
    by (rule zdiv_mono1) (use assms in simp_all)
  then have q1: "1 \<le> ?q" using Spos by simp
  then have c: "int c = ?q" by (simp add: c_def)
  show "1 \<le> c" using q1 c by linarith
  have le: "?q * S \<le> ?a" using qS m0 by linarith
  show "int c * S < int n" using le assms c by simp
  have "(?q - 1) * S = ?q * S - S" by (simp add: algebra_simps)
  then show "(int c - 1) * S + L < int n" using le c by simp
  have "?a - S < ?q * S" using qS m1 by linarith
  then show "int n - L \<le> int c * S" using c by simp
qed

lemma py_range0_pos:
  "0 < S \<Longrightarrow> py_range0 stop S = map (\<lambda>k. int k * S) [0 ..< nat ((stop + S - 1) div S)]"
  by (simp add: py_range0_def)

lemma seq_offsets_short:
  assumes "int n \<le> L" "ts \<noteq> []"
  shows "seq_offsets ts n N S L = Inr [(ts ! 0, N)]"
  using assms by (simp add: seq_offsets_def py_index_def)

lemma seq_offsets_long:
  fixes S L :: int
  assumes "L < int (length ts)" "1 \<le> S" "S \<le> L"
  shows "seq_offsets ts (length ts) N S L =
           Inr (map (\<lambda>k. (ts ! (k * nat S), ts ! (k * nat S + nat L)))
                  [0 ..< nat ((int (length ts) - L + S - 1) div S)]
                @ [(ts ! (nat ((int (length ts) - L + S - 1) div S) * nat S), N)])"
proof -
  define c where "c = nat ((int (length ts) - L + S - 1) div S)"
  note rc = range_count[OF assms, folded c_def]
  have Spos: "0 < S" and Lpos: "0 < L" using assms by simp_all
  have rng: "py_range0 (int (length ts) - L) S = map (\<lambda>k. int k * S) [0 ..< c]"
    using Spos by (simp add: py_range0_pos c_def)
  have lastx: "py_index (map (\<lambda>k. int k * S) [0 ..< c]) (- 1) = Inr (int (c - 1) * S)"
  proof -
    have "nat (int c - 1) = c - 1" by simp
    moreover have "c - 1 < c" using rc(1) by simp
    ultimately show ?thesis using rc(1) by (simp add: py_index_def)
  qed
  have natS: "int (nat S) = S" and natL: "int (nat L) = L" using Spos Lpos by simp_all
  have step: "\<And>k. k < c \<Longrightarrow> k * nat S + nat L < length ts"
  proof -
    fix k assume "k < c"
    then have "int k \<le> int c - 1" by simp
    then have "int k * S \<le> (int c - 1) * S" using Spos by (simp add: mult_right_mono)
    then have "int k * S + L < int (length ts)" using rc(3) by simp
    moreover have "int (k * nat S + nat L) = int k * S + L"
      by (simp only: of_nat_add of_nat_mult natS natL)
    ultimately show "k * nat S + nat L < length ts" by linarith
  qed
  have elems: "\<And>x. x \<in> set (map (\<lambda>k. int k * S) [0 ..< c]) \<Longrightarrow>
      (case py_index ts x of Inl e \<Rightarrow> Inl e
       | Inr a \<Rightarrow> (case py_index ts (x + L) of Inl e \<Rightarrow> Inl e | Inr b \<Rightarrow> Inr (a, b)))
      = Inr (ts ! nat x, ts ! nat (x + L))"
  proof -
    fix x assume "x \<in> set (map (\<lambda>k. int k * S) [0 ..< c])"
    then obtain k where k: "k < c" "x = int k * S" by auto
    have e: "int (k * nat S + nat L) = x + L"
      unfolding k(2) by (simp only: of_nat_add of_nat_mult natS natL)
    have x0: "0 \<le> x" using k Spos by simp
    have "int (k * nat S + nat L) < int (length ts)" using step[OF k(1)] by linarith
    then have xl: "x + L < int (length ts)" using e by simp
    have "0 \<le> x + L" "x < int (length ts)" using x0 xl Lpos by linarith+
    with x0 xl show "(case py_index ts x of Inl e \<Rightarrow> Inl e
       | Inr a \<Rightarrow> (case py_index ts (x + L) of Inl e \<Rightarrow> Inl e | Inr b \<Rightarrow> Inr (a, b)))
      = Inr (ts ! nat x, ts ! nat (x + L))"
      by (simp add: py_index_def)
  qed
  have coll: "collect (map (\<lambda>x. case py_index ts x of Inl e \<Rightarrow> Inl e
       | Inr a \<Rightarrow> (case py_index ts (x + L) of Inl e \<Rightarrow> Inl e | Inr b \<Rightarrow> Inr (a, b)))
       (map (\<lambda>k. int k * S) [0 ..< c]))
     = Inr (map (\<lambda>x. (ts ! nat x, ts ! nat (x + L))) (map (\<lambda>k. int k * S) [0 ..< c]))"
    by (rule collect_map_Inr) (rule elems)
  have conv: "map (\<lambda>x. (ts ! nat x, ts ! nat (x + L))) (map (\<lambda>k. int k * S) [0 ..< c])
     = map (\<lambda>k. (ts ! (k * nat S), ts ! (k * nat S + nat L))) [0 ..< c]"
  proof -
    have "\<And>k. nat (int k * S) = k * nat S"
      using Spos by (simp add: nat_mult_distrib)
    moreover have "\<And>k. nat (int k * S + L) = k * nat S + nat L"
      using Spos Lpos by (simp add: nat_add_distrib nat_mult_distrib)
    ultimately show ?thesis by simp
  qed
  have lastoff: "int (c - 1) * S + S = int c * S"
    using rc(1) by (simp add: algebra_simps of_nat_diff)
  have lastidx: "py_index ts (int c * S) = Inr (ts ! (c * nat S))"
  proof -
    have "0 \<le> int c * S" using Spos by simp
    moreover have "nat (int c * S) = c * nat S" using Spos by (simp add: nat_mult_distrib)
    ultimately show ?thesis using rc(2) by (simp add: py_index_def)
  qed
  have "seq_offsets ts (length ts) N S L =
      Inr (map (\<lambda>k. (ts ! (k * nat S), ts ! (k * nat S + nat L))) [0 ..< c] @ [(ts ! (c * nat S), N)])"
    using assms(1) Spos
    by (simp only: seq_offsets_def rng lastx coll conv lastoff lastidx sum.case)
       simp
  then show ?thesis by (simp only: c_def)
qed

lemma seq_offsets_elems:
  assumes "seq_offsets ts n N S L = Inr offs" "(a, b) \<in> set offs"
  shows "a \<in> set ts \<and> (b \<in> set ts \<or> b = N)"
proof (cases "int n \<le> L")
  case True
  then show ?thesis using assms
    by (auto simp: seq_offsets_def split: sum.splits dest: py_index_in_set)
next
  case False
  let ?f = "\<lambda>x. case py_index ts x of Inl e \<Rightarrow> Inl e
              | Inr a \<Rightarrow> (case py_index ts (x + L) of Inl e \<Rightarrow> Inl e | Inr b \<Rightarrow> Inr (a, b))"
  from assms(1) False obtain l mid s where
    mid: "collect (map ?f (py_range0 (int n - L) S)) = Inr mid"
    and s: "py_index ts (l + S) = Inr s"
    and offs: "offs = mid @ [(s, N)]"
    by (auto simp: seq_offsets_def split: sum.splits if_splits)
  from assms(2) offs consider "(a, b) \<in> set mid" | "a = s" "b = N" by auto
  then show ?thesis
  proof cases
    case 1
    from collect_Inr_elem[OF mid 1] obtain x where "?f x = Inr (a, b)" by auto
    then show ?thesis
      by (auto split: sum.splits dest: py_index_in_set)
  next
    case 2
    then show ?thesis using s by (auto dest: py_index_in_set)
  qed
qed

lemma examples_of_ranges:
  "map (\<lambda>w. (ex_start w, ex_stop w)) (examples_of text offs) = offs"
  by (rule nth_equalityI) (auto simp: examples_of_def ex_start_def ex_stop_def split: prod.splits)

lemma ranges_union:
  "(\<Union>w \<in> set (examples_of text offs). {ex_start w ..< ex_stop w}) = (\<Union>(a, b) \<in> set offs. {a ..< b})"
proof -
  have "(\<Union>(a, b) \<in> set (map (\<lambda>w. (ex_start w, ex_stop w)) (examples_of text offs)). {a ..< b})
        = (\<Union>w \<in> set (examples_of text offs). {ex_start w ..< ex_stop w})"
    by auto
  then show ?thesis by (simp only: examples_of_ranges)
qed

lemma split_by_overlap_snapped:
  assumes "tokens_idx tk \<noteq> []" "length (tokens_sw tk) = length (tokens_idx tk)"
  shows "split_by_overlap tk text S L =
     (case seq_offsets (map (\<lambda>j. map fst (tokens_idx tk) ! (fill_idx (sw_mask (tokens_sw tk)) ! j))
                          [0 ..< length (tokens_idx tk)])
            (length (tokens tk)) (int (length text)) S L of
        Inl e \<Rightarrow> Inl e
      | Inr offs \<Rightarrow> Inr (examples_of text offs))"
  using assms snap_starts_Inr[of "tokens_sw tk" "map fst (tokens_idx tk)"]
  by (simp add: split_by_overlap_def)

lemma chain_union:
  fixes ts :: "int list"
  assumes sorted: "sorted ts" and bound: "\<forall>t \<in> set ts. t \<le> N"
    and sl: "s \<le> l" and c: "c * s < length ts" and kl: "\<And>k. k < c \<Longrightarrow> k * s + l < length ts"
  shows "(\<Union>(a, b) \<in> set (map (\<lambda>k. (ts ! (k * s), ts ! (k * s + l))) [0 ..< c] @ [(ts ! (c * s), N)]).
            {a ..< b}) = {ts ! 0 ..< N}"
    (is "?U = ?R")
proof (rule set_eqI)
  fix x
  have mono: "\<And>i j. i \<le> j \<Longrightarrow> j < length ts \<Longrightarrow> ts ! i \<le> ts ! j"
    using sorted by (simp add: sorted_iff_nth_mono)
  have bnd: "\<And>i. i < length ts \<Longrightarrow> ts ! i \<le> N" using bound by simp
  have U: "x \<in> ?U \<longleftrightarrow> (\<exists>k < c. ts ! (k * s) \<le> x \<and> x < ts ! (k * s + l)) \<or> (ts ! (c * s) \<le> x \<and> x < N)"
    by auto
  show "x \<in> ?U \<longleftrightarrow> x \<in> ?R"
  proof
    assume "x \<in> ?U"
    then consider k where "k < c" "ts ! (k * s) \<le> x" "x < ts ! (k * s + l)"
      | "ts ! (c * s) \<le> x" "x < N" using U by blast
    then show "x \<in> ?R"
    proof cases
      case 1
      have "ts ! 0 \<le> ts ! (k * s)" using kl[OF 1(1)] by (intro mono) simp_all
      moreover have "ts ! (k * s + l) \<le> N" using kl[OF 1(1)] by (rule bnd)
      ultimately show ?thesis using 1 by simp
    next
      case 2
      have "ts ! 0 \<le> ts ! (c * s)" using c by (intro mono) simp_all
      then show ?thesis using 2 by simp
    qed
  next
    assume "x \<in> ?R"
    then have x: "ts ! 0 \<le> x" "x < N" by simp_all
    define P where "P k \<longleftrightarrow> k \<le> c \<and> ts ! (k * s) \<le> x" for k
    have "P 0" using x by (simp add: P_def)
    moreover have "\<forall>k. P k \<longrightarrow> k \<le> c" by (simp add: P_def)
    ultimately have "\<exists>m. P m \<and> (\<forall>k. P k \<longrightarrow> k \<le> m)"
      by (rule Nat.ex_has_greatest_nat)
    then obtain m where m: "P m" "\<And>k. P k \<Longrightarrow> k \<le> m" by blast
    show "x \<in> ?U"
    proof (cases "m = c")
      case True
      then show ?thesis using m(1) x U by (simp add: P_def)
    next
      case False
      then have mc: "m < c" using m(1) by (simp add: P_def)
      have "\<not> P (Suc m)" using m(2)[of "Suc m"] by auto
      then have "x < ts ! (Suc m * s)" using mc by (simp add: P_def)
      moreover have "ts ! (Suc m * s) \<le> ts ! (m * s + l)"
        using sl kl[OF mc] by (intro mono) simp_all
      ultimately have "x < ts ! (m * s + l)" by simp
      then show ?thesis using m(1) mc U by (auto simp: P_def)
    qed
  qed
qed

subsection \<open>Coverage\<close>

text \<open>
  Claim C3, as amended. For a text with at least one token, with as many tokens as
  flags and index pairs, token starts in ascending order and inside the text, and a step
  \<open>1 \<le> S \<le> L\<close>, the splitter returns windows, and the union of their character ranges
  \<open>[start, stop)\<close> is the interval from the start offset of the first token to the length
  of the text. It is \<open>[0, N)\<close> only when the first token starts at offset 0.
\<close>

theorem split_by_overlap_coverage:
  assumes ne: "tokens_idx tk \<noteq> []"
    and lt: "length (tokens tk) = length (tokens_idx tk)"
    and ls: "length (tokens_sw tk) = length (tokens_idx tk)"
    and srt: "sorted (map fst (tokens_idx tk))"
    and bnd: "\<forall>p \<in> set (tokens_idx tk). fst p \<le> int (length text)"
    and S: "1 \<le> S" "S \<le> L"
  shows "\<exists>ws. split_by_overlap tk text S L = Inr ws \<and>
           (\<Union>w \<in> set ws. {ex_start w ..< ex_stop w})
             = {fst (hd (tokens_idx tk)) ..< int (length text)}"
proof -
  define orig where "orig = map fst (tokens_idx tk)"
  define n where "n = length (tokens_idx tk)"
  define m where "m = sw_mask (tokens_sw tk)"
  define ts where "ts = map (\<lambda>j. orig ! (fill_idx m ! j)) [0 ..< n]"
  define N where "N = int (length text)"
  have lm: "length m = n" using ls by (simp add: m_def n_def sw_mask_def)
  have lo: "length orig = n" by (simp add: orig_def n_def)
  have lts: "length ts = n" by (simp add: ts_def)
  have npos: "0 < n" using ne by (simp add: n_def)
  have nth: "\<And>j. j < n \<Longrightarrow> ts ! j = orig ! (fill_idx m ! j)" by (simp add: ts_def)
  have sorted_ts: "sorted ts"
    unfolding sorted_iff_nth_mono
  proof (intro allI impI)
    fix i j assume ij: "i \<le> j" "j < length ts"
    then have j: "j < n" and i: "i < n" using lts by simp_all
    have "fill_idx m ! i \<le> fill_idx m ! j" using ij(1) j lm by (intro fill_idx_mono) simp_all
    moreover have "fill_idx m ! j < length orig" using fill_idx_le[of j m] j lm lo by simp
    ultimately have "orig ! (fill_idx m ! i) \<le> orig ! (fill_idx m ! j)"
      using srt by (simp add: orig_def[symmetric] sorted_iff_nth_mono)
    then show "ts ! i \<le> ts ! j" using nth i j by simp
  qed
  have bound_ts: "\<forall>t \<in> set ts. t \<le> N"
  proof
    fix t assume "t \<in> set ts"
    then obtain j where j: "j < n" "t = orig ! (fill_idx m ! j)" by (auto simp: ts_def)
    have "fill_idx m ! j < length orig" using fill_idx_le[of j m] j lm lo by simp
    then have "orig ! (fill_idx m ! j) \<in> set orig" by simp
    then show "t \<le> N" using bnd j by (auto simp: orig_def N_def)
  qed
  have ts0: "ts ! 0 = fst (hd (tokens_idx tk))"
  proof -
    have "fill_idx m ! 0 = 0" using fill_idx_le[of 0 m] npos lm by simp
    then have "ts ! 0 = orig ! 0" using nth[OF npos] by simp
    then show ?thesis using ne by (simp add: orig_def hd_conv_nth)
  qed
  have split: "split_by_overlap tk text S L =
      (case seq_offsets ts n N S L of Inl e \<Rightarrow> Inl e | Inr offs \<Rightarrow> Inr (examples_of text offs))"
    using split_by_overlap_snapped[OF ne ls] lt
    by (simp add: ts_def orig_def n_def m_def N_def)
  show ?thesis
  proof (cases "int n \<le> L")
    case True
    have "ts \<noteq> []" using lts npos by auto
    then have "seq_offsets ts n N S L = Inr [(ts ! 0, N)]"
      using True by (rule seq_offsets_short[rotated])
    then show ?thesis
      using split ts0 by (simp add: ranges_union N_def)
  next
    case False
    then have Ln: "L < int (length ts)" using lts by simp
    define c where "c = nat ((int (length ts) - L + S - 1) div S)"
    note rc = range_count[OF Ln S, folded c_def]
    have Spos: "0 < S" and Lpos: "0 < L" using S by simp_all
    have so: "seq_offsets ts n N S L =
        Inr (map (\<lambda>k. (ts ! (k * nat S), ts ! (k * nat S + nat L))) [0 ..< c] @ [(ts ! (c * nat S), N)])"
      using seq_offsets_long[OF Ln S, of N] by (simp only: lts c_def)
    have cs: "c * nat S < length ts"
    proof -
      have "int (c * nat S) = int c * S" using Spos by simp
      then show ?thesis using rc(2) by linarith
    qed
    have kl: "\<And>k. k < c \<Longrightarrow> k * nat S + nat L < length ts"
    proof -
      fix k assume "k < c"
      then have "int k \<le> int c - 1" by simp
      then have "int k * S \<le> (int c - 1) * S" using Spos by (simp add: mult_right_mono)
      then have "int k * S + L < int (length ts)" using rc(3) by simp
      moreover have "int (k * nat S + nat L) = int k * S + L"
        using Spos Lpos by simp
      ultimately show "k * nat S + nat L < length ts" by linarith
    qed
    have "nat S \<le> nat L" using S by simp
    from chain_union[OF sorted_ts bound_ts this cs kl]
    have U: "(\<Union>(a, b) \<in> set (map (\<lambda>k. (ts ! (k * nat S), ts ! (k * nat S + nat L))) [0 ..< c]
                @ [(ts ! (c * nat S), N)]). {a ..< b}) = {ts ! 0 ..< N}" .
    have "split_by_overlap tk text S L =
        Inr (examples_of text (map (\<lambda>k. (ts ! (k * nat S), ts ! (k * nat S + nat L))) [0 ..< c]
                @ [(ts ! (c * nat S), N)]))"
      by (simp only: split so sum.case)
    moreover have "(\<Union>w \<in> set (examples_of text
          (map (\<lambda>k. (ts ! (k * nat S), ts ! (k * nat S + nat L))) [0 ..< c] @ [(ts ! (c * nat S), N)])).
          {ex_start w ..< ex_stop w}) = {ts ! 0 ..< N}"
      unfolding ranges_union by (rule U)
    ultimately show ?thesis unfolding ts0 N_def by blast
  qed
qed

theorem split_by_overlap_coverage_witness:
  "\<exists>ws. split_by_overlap tk_demo ''a bc de'' 2 2 = Inr ws \<and>
         (\<Union>w \<in> set ws. {ex_start w ..< ex_stop w}) = {0 ..< 7}"
  using split_by_overlap_coverage[of tk_demo "''a bc de''" 2 2]
  by (simp add: tk_demo_def)

text \<open>
  The claim as stated fails where the text starts with characters that belong to no
  token: with two leading blanks the only window is \<open>[2, 7)\<close> and offset 0 is in no window.
\<close>

theorem split_by_overlap_coverage_counterexample:
  "split_by_overlap tk_lead2 ''  hi yo'' 20 100 = Inr [(0, 2, 7, ''hi yo'')] \<and>
   (\<Union>w \<in> set [(0, 2, 7, ''hi yo'')]. {ex_start w ..< ex_stop w}) \<noteq> {0 ..< int (length ''  hi yo'')}"
proof
  show "split_by_overlap tk_lead2 ''  hi yo'' 20 100 = Inr [(0, 2, 7, ''hi yo'')]"
    by (simp add: tk_lead2_def split_by_overlap_def snap_starts_def sw_mask_def fill_idx_def
        maximum_accumulate_def seq_offsets_def py_index_def examples_of_def py_slice_def py_clamp_def)
  have l: "(\<Union>w \<in> set [(0, 2, 7, ''hi yo'')]. {ex_start w ..< ex_stop w}) = {2 ..< 7}"
    by (simp add: ex_start_def ex_stop_def)
  have r: "{0 ..< int (length ''  hi yo'')} = {0 ..< 7}"
    by simp
  have "(0::int) \<in> {0 ..< 7}" by simp
  moreover have "(0::int) \<notin> {2 ..< 7}" by simp
  ultimately have "{2 ..< 7} \<noteq> {0 ..< 7::int}" by blast
  then show "(\<Union>w \<in> set [(0, 2, 7, ''hi yo'')]. {ex_start w ..< ex_stop w}) \<noteq> {0 ..< int (length ''  hi yo'')}"
    unfolding l r .
qed

subsection \<open>Short texts\<close>

text \<open>
  Claim C6, as amended. For a text with at least one token, as many flags as index pairs
  and at most \<open>L\<close> tokens, the splitter returns exactly one window, with index 0, from the
  start offset of the first token to the length of the text. (With no token it returns
  no window: claim C8.)
\<close>

theorem split_by_overlap_short:
  assumes "tokens_idx tk \<noteq> []"
    and "length (tokens_sw tk) = length (tokens_idx tk)"
    and "int (length (tokens tk)) \<le> L"
  shows "split_by_overlap tk text S L =
           Inr [(0, fst (hd (tokens_idx tk)), int (length text),
                 py_slice text (fst (hd (tokens_idx tk))) (int (length text)))]"
proof -
  let ?m = "sw_mask (tokens_sw tk)"
  let ?ts = "map (\<lambda>j. map fst (tokens_idx tk) ! (fill_idx ?m ! j)) [0 ..< length (tokens_idx tk)]"
  have n: "0 < length (tokens_idx tk)" using assms(1) by simp
  have "length ?m = length (tokens_idx tk)" using assms(2) by (simp add: sw_mask_def)
  then have "fill_idx ?m ! 0 = 0" using fill_idx_le[of 0 ?m] n by simp
  then have ts0: "?ts ! 0 = fst (hd (tokens_idx tk))"
    using n assms(1) by (simp add: hd_conv_nth del: upt_Suc)
  have "?ts \<noteq> []" using n by simp
  then have "seq_offsets ?ts (length (tokens tk)) (int (length text)) S L
      = Inr [(?ts ! 0, int (length text))]"
    using assms(3) by (rule seq_offsets_short[rotated])
  then show ?thesis
    unfolding split_by_overlap_snapped[OF assms(1,2)] ts0
    by (simp add: examples_of_def)
qed

theorem split_by_overlap_short_witness:
  "split_by_overlap tk_lead '' a'' 20 100 = Inr [(0, 1, 2, ''a'')]"
  using split_by_overlap_short[of tk_lead 100 "'' a''" 20]
  by (simp add: tk_lead_def py_slice_def py_clamp_def)

text \<open>
  The claim as stated fails on a text with a leading blank: its one token gives one
  window, \<open>[1, 2)\<close>, which is not the whole text \<open>[0, 2)\<close>.
\<close>

theorem split_by_overlap_short_counterexample:
  "int (length (tokens tk_lead)) \<le> 100 \<and>
   split_by_overlap tk_lead '' a'' 20 100 = Inr [(0, 1, 2, ''a'')] \<and>
   {ex_start (0, 1, 2, ''a'') ..< ex_stop (0, 1, 2, ''a'')} \<noteq> {0 ..< int (length '' a'')}"
proof -
  have "split_by_overlap tk_lead '' a'' 20 100 = Inr [(0, 1, 2, ''a'')]"
    by (simp add: tk_lead_def split_by_overlap_def snap_starts_def sw_mask_def fill_idx_def
        maximum_accumulate_def seq_offsets_def py_index_def examples_of_def py_slice_def py_clamp_def)
  moreover have "(0::int) \<in> {0 ..< int (length '' a'')}" by simp
  moreover have "(0::int) \<notin> {ex_start (0, 1, 2, ''a'') ..< ex_stop (0, 1, 2, ''a'')}"
    by (simp add: ex_start_def)
  ultimately show ?thesis by (auto simp: tk_lead_def)
qed

subsection \<open>Subword safety\<close>

text \<open>
  Claim C5. Every start and end offset of every window the splitter returns is the
  length of the text or the start offset of a token \<open>k\<close> that is the nearest token at or
  before some token \<open>j\<close> that is no subword continuation: a continuation token snaps to
  the start of the nearest preceding token that is not one. So where the index pairs
  are the start and end offsets of ordered, disjoint tokens inside the text, no start or
  end offset of a window lies strictly inside a token marked as a continuation. The
  snapped start of every token \<open>j\<close> is the start offset of the nearest token at or
  before \<open>j\<close> that is no continuation.
\<close>

theorem split_by_overlap_subword_safe:
  assumes ok: "split_by_overlap tk text S L = Inr ws"
    and w: "w \<in> set ws"
    and b: "b = ex_start w \<or> b = ex_stop w"
  shows "(b = int (length text) \<or>
          (\<exists>j k. j < length (tokens_idx tk) \<and> nearest_start (tokens_sw tk) j k \<and>
                 b = fst (tokens_idx tk ! k))) \<and>
         ((\<forall>i j. i < j \<and> j < length (tokens_idx tk) \<longrightarrow>
                   snd (tokens_idx tk ! i) \<le> fst (tokens_idx tk ! j)) \<and>
          (\<forall>j < length (tokens_idx tk). fst (tokens_idx tk ! j) \<le> snd (tokens_idx tk ! j) \<and>
                   snd (tokens_idx tk ! j) \<le> int (length text)) \<longrightarrow>
          (\<forall>j < length (tokens_idx tk). tokens_sw tk ! j = 1 \<longrightarrow>
              \<not> (fst (tokens_idx tk ! j) < b \<and> b < snd (tokens_idx tk ! j)))) \<and>
         (\<exists>ts. snap_starts (map fst (tokens_idx tk)) (tokens_sw tk) = Inr ts \<and>
            (\<forall>j < length (tokens_idx tk). \<exists>k. nearest_start (tokens_sw tk) j k \<and>
                ts ! j = fst (tokens_idx tk ! k)))"
proof -
  define idx where "idx = tokens_idx tk"
  define sw where "sw = tokens_sw tk"
  define n where "n = length idx"
  define N where "N = int (length text)"
  define ts where "ts = map (\<lambda>j. map fst idx ! (fill_idx (sw_mask sw) ! j)) [0 ..< n]"
  have ne: "idx \<noteq> []" using ok w by (auto simp: split_by_overlap_def idx_def)
  have ls: "length sw = n"
    using ok ne by (auto simp: split_by_overlap_def snap_starts_def idx_def sw_def n_def
        split: if_splits)
  from ok obtain offs where offs: "seq_offsets ts (length (tokens tk)) N S L = Inr offs"
    and ws: "ws = examples_of text offs"
    using split_by_overlap_snapped[of tk "text" S L] ne ls
    by (auto simp: idx_def sw_def n_def ts_def N_def split: sum.splits)
  have "(ex_start w, ex_stop w) \<in> set (map (\<lambda>w. (ex_start w, ex_stop w)) ws)"
    using w by simp
  then have "(ex_start w, ex_stop w) \<in> set offs"
    unfolding ws examples_of_ranges .
  from seq_offsets_elems[OF offs this] b have "b \<in> set ts \<or> b = N" by auto
  then have A: "b = N \<or> (\<exists>j k. j < n \<and> nearest_start sw j k \<and> b = fst (idx ! k))"
  proof
    assume "b \<in> set ts"
    then obtain j where j: "j < n" "b = map fst idx ! (fill_idx (sw_mask sw) ! j)"
      by (auto simp: ts_def)
    let ?k = "fill_idx (sw_mask sw) ! j"
    have near: "nearest_start sw j ?k"
      using snapped_nearest[of sw "map fst idx" j] ls j by (simp add: n_def)
    then have "?k < n" using j by (simp add: nearest_start_def)
    then have "b = fst (idx ! ?k)" using j by (simp add: n_def)
    with j near show ?thesis by blast
  qed simp
  have B: "\<forall>j < n. \<not> (fst (idx ! j) < b \<and> b < snd (idx ! j))"
    if ord: "\<forall>i j. i < j \<and> j < n \<longrightarrow> snd (idx ! i) \<le> fst (idx ! j)"
      and top: "\<forall>j < n. fst (idx ! j) \<le> snd (idx ! j) \<and> snd (idx ! j) \<le> N"
  proof (intro allI impI)
    fix j assume j: "j < n"
    from A show "\<not> (fst (idx ! j) < b \<and> b < snd (idx ! j))"
    proof
      assume "b = N" then show ?thesis using top j by auto
    next
      assume "\<exists>j k. j < n \<and> nearest_start sw j k \<and> b = fst (idx ! k)"
      then obtain j' k where k: "j' < n" "k \<le> j'" "b = fst (idx ! k)"
        by (auto simp: nearest_start_def)
      then have kn: "k < n" by simp
      consider "k < j" | "k = j" | "j < k" by linarith
      then show ?thesis
      proof cases
        case 1
        then have "snd (idx ! k) \<le> fst (idx ! j)" using ord j by blast
        moreover have "fst (idx ! k) \<le> snd (idx ! k)" using top kn by blast
        ultimately show ?thesis using k(3) by linarith
      next
        case 2 then show ?thesis using k(3) by simp
      next
        case 3
        then have "snd (idx ! j) \<le> fst (idx ! k)" using ord kn by blast
        then show ?thesis using k(3) by simp
      qed
    qed
  qed
  have C: "\<exists>ts. snap_starts (map fst idx) sw = Inr ts \<and>
            (\<forall>j < n. \<exists>k. nearest_start sw j k \<and> ts ! j = fst (idx ! k))"
  proof -
    have sn: "snap_starts (map fst idx) sw = Inr ts"
      using snap_starts_Inr[of sw "map fst idx"] ls by (simp add: n_def ts_def)
    have "\<forall>j < n. \<exists>k. nearest_start sw j k \<and> ts ! j = fst (idx ! k)"
    proof (intro allI impI)
      fix j assume j: "j < n"
      let ?k = "fill_idx (sw_mask sw) ! j"
      have near: "nearest_start sw j ?k"
        using snapped_nearest[of sw "map fst idx" j] ls j by (simp add: n_def)
      then have "?k < n" using j by (simp add: nearest_start_def)
      then have "ts ! j = fst (idx ! ?k)" using j by (simp add: n_def ts_def)
      with near show "\<exists>k. nearest_start sw j k \<and> ts ! j = fst (idx ! k)" by blast
    qed
    with sn show ?thesis by blast
  qed
  show ?thesis
    using A B C unfolding idx_def[symmetric] sw_def[symmetric] n_def[symmetric] N_def[symmetric]
    by blast
qed

lemma demo_split:
  "split_by_overlap tk_demo ''a bc de'' 2 2
     = Inr [(0, 0, 2, ''a ''), (1, 2, 5, ''bc ''), (2, 5, 7, ''de'')]"
  by code_simp

theorem split_by_overlap_subword_safe_witness:
  "(\<exists>j k. j < length (tokens_idx tk_demo) \<and> nearest_start (tokens_sw tk_demo) j k \<and>
          (2::int) = fst (tokens_idx tk_demo ! k)) \<and>
   \<not> (fst (tokens_idx tk_demo ! 2) < (2::int) \<and> (2::int) < snd (tokens_idx tk_demo ! 2)) \<and>
   snap_starts (map fst (tokens_idx tk_demo)) (tokens_sw tk_demo) = Inr [0, 2, 2, 5, 5]"
proof -
  have snap: "snap_starts (map fst (tokens_idx tk_demo)) (tokens_sw tk_demo) = Inr [0, 2, 2, 5, 5]"
    by code_simp
  have w: "(1, 2, 5, ''bc '') \<in> set [(0, 0, 2, ''a ''), (1::nat, 2::int, 5::int, ''bc ''), (2, 5, 7, ''de'')]"
    by simp
  have b: "(2::int) = ex_start (1, 2, 5, ''bc '') \<or> (2::int) = ex_stop (1, 2, 5, ''bc '')"
    by (simp add: ex_start_def)
  have ord: "\<forall>i j. i < j \<and> j < length (tokens_idx tk_demo) \<longrightarrow>
                   snd (tokens_idx tk_demo ! i) \<le> fst (tokens_idx tk_demo ! j)"
    by (auto simp: tk_demo_def less_Suc_eq nth_Cons')
  have top: "\<forall>j < length (tokens_idx tk_demo). fst (tokens_idx tk_demo ! j) \<le> snd (tokens_idx tk_demo ! j) \<and>
                   snd (tokens_idx tk_demo ! j) \<le> int (length ''a bc de'')"
    by (auto simp: tk_demo_def less_Suc_eq nth_Cons')
  have sw: "tokens_sw tk_demo ! 2 = 1" "2 < length (tokens_idx tk_demo)"
    by (simp_all add: tk_demo_def)
  from split_by_overlap_subword_safe[OF demo_split w b] ord top sw snap
  show ?thesis by auto
qed

section \<open>Properties of the span reconstruction\<close>

subsection \<open>Deduplication\<close>

lemma first_index_props:
  assumes "v \<in> set xs"
  shows "first_index xs v < length xs" and "xs ! first_index xs v = v"
    and "\<And>k. k < first_index xs v \<Longrightarrow> xs ! k \<noteq> v"
proof -
  show "first_index xs v < length xs" using assms by (induction xs) auto
  show "xs ! first_index xs v = v" using assms by (induction xs) auto
  show "\<And>k. k < first_index xs v \<Longrightarrow> xs ! k \<noteq> v"
  proof (induction xs)
    case Nil
    then show ?case by simp
  next
    case (Cons x xs)
    then show ?case by (cases k) (auto split: if_splits)
  qed
qed

lemma unique_last_idx_eq:
  "unique_last_idx offs = map (last_index offs) (sort (remdups (rev offs)))"
  by (simp add: unique_last_idx_def np_unique_index_def last_index_def)

lemma last_index_props:
  assumes "v \<in> set offs"
  shows "last_index offs v < length offs" and "offs ! last_index offs v = v"
    and "\<And>j. last_index offs v < j \<Longrightarrow> j < length offs \<Longrightarrow> offs ! j \<noteq> v"
proof -
  let ?k = "first_index (rev offs) v"
  have v: "v \<in> set (rev offs)" using assms by simp
  have k: "?k < length offs" using first_index_props(1)[OF v] by simp
  then show lt: "last_index offs v < length offs" by (simp add: last_index_def)
  have "rev offs ! ?k = offs ! (length offs - Suc ?k)" using k by (rule rev_nth)
  then show "offs ! last_index offs v = v"
    using first_index_props(2)[OF v] by (simp add: last_index_def)
  fix j assume j: "last_index offs v < j" "j < length offs"
  then have "length offs - Suc j < ?k" using k by (simp add: last_index_def)
  then have "rev offs ! (length offs - Suc j) \<noteq> v" by (rule first_index_props(3)[OF v])
  moreover have "rev offs ! (length offs - Suc j) = offs ! (length offs - Suc (length offs - Suc j))"
    using j by (intro rev_nth) simp
  moreover have "length offs - Suc (length offs - Suc j) = j" using j by simp
  ultimately show "offs ! j \<noteq> v" by simp
qed


lemma dedup_labels_elem:
  assumes "s \<in> set (dedup_labels labels)"
  shows "\<exists>i < length labels. s = labels ! i \<and>
           (\<forall>j. i < j \<and> j < length labels \<longrightarrow> span_offset (labels ! j) \<noteq> span_offset s)"
proof -
  let ?offs = "map span_offset labels"
  from assms obtain v where v: "v \<in> set ?offs" and s: "s = labels ! last_index ?offs v"
    by (auto simp: dedup_labels_def unique_last_idx_eq)
  let ?i = "last_index ?offs v"
  have i: "?i < length labels" using last_index_props(1)[OF v] by simp
  have sv: "span_offset s = v" using last_index_props(2)[OF v] i s by simp
  have "\<forall>j. ?i < j \<and> j < length labels \<longrightarrow> span_offset (labels ! j) \<noteq> span_offset s"
  proof (intro allI impI)
    fix j assume j: "?i < j \<and> j < length labels"
    then have "?offs ! j \<noteq> v" using last_index_props(3)[OF v, of j] by simp
    then show "span_offset (labels ! j) \<noteq> span_offset s" using j sv by simp
  qed
  with i s show ?thesis by blast
qed



subsection \<open>Length extension\<close>

lemma extend_loop_PyList:
  assumes "k \<le> length xs" "xs \<noteq> [] \<longrightarrow> \<not> sw ! 0"
  shows "\<exists>r. extend_loop sw k (PyList xs) = (PyList r, None) \<and> length r = length xs \<and>
           (\<forall>i < length xs. r ! i = xs ! i + (if Suc i < k \<and> sw ! Suc i then r ! Suc i else 0))"
  using assms
proof (induction k arbitrary: xs)
  case 0
  then show ?case by simp
next
  case (Suc j)
  then have j: "j < length xs" and ne: "xs \<noteq> []" by auto
  show ?case
  proof (cases "sw ! j")
    case False
    from Suc.IH[of xs] Suc.prems obtain r where
      r: "extend_loop sw j (PyList xs) = (PyList r, None)" "length r = length xs"
         "\<forall>i < length xs. r ! i = xs ! i + (if Suc i < j \<and> sw ! Suc i then r ! Suc i else 0)"
      by auto
    have "\<forall>i < length xs. r ! i = xs ! i + (if Suc i < Suc j \<and> sw ! Suc i then r ! Suc i else 0)"
    proof (intro allI impI)
      fix i assume i: "i < length xs"
      show "r ! i = xs ! i + (if Suc i < Suc j \<and> sw ! Suc i then r ! Suc i else 0)"
      proof (cases "Suc i = j")
        case True
        then show ?thesis using r(3) i False by simp
      next
        case ne: False
        then have "Suc i < Suc j \<longleftrightarrow> Suc i < j" by auto
        then show ?thesis using r(3) i by simp
      qed
    qed
    then show ?thesis using r False by simp
  next
    case True
    have j0: "j \<noteq> 0"
    proof
      assume "j = 0"
      then show False using True Suc.prems(2) ne by simp
    qed
    define xs' where "xs' = xs[j - 1 := xs ! (j - 1) + xs ! j]"
    have iadd: "lengths_iadd (PyList xs) j = Inr (PyList xs')"
      using j j0 by (simp add: iadd_at_def xs'_def)
    have len': "length xs' = length xs" by (simp add: xs'_def)
    have "j \<le> length xs'" "xs' \<noteq> [] \<longrightarrow> \<not> sw ! 0" using j len' Suc.prems ne by auto
    from Suc.IH[OF this] obtain r where
      r: "extend_loop sw j (PyList xs') = (PyList r, None)" "length r = length xs'"
         "\<forall>i < length xs'. r ! i = xs' ! i + (if Suc i < j \<and> sw ! Suc i then r ! Suc i else 0)"
      by auto
    have rj: "r ! j = xs ! j"
    proof -
      have "r ! j = xs' ! j" using r(3) j len' by simp
      then show ?thesis using j0 by (simp add: xs'_def)
    qed
    have "\<forall>i < length xs. r ! i = xs ! i + (if Suc i < Suc j \<and> sw ! Suc i then r ! Suc i else 0)"
    proof (intro allI impI)
      fix i assume i: "i < length xs"
      show "r ! i = xs ! i + (if Suc i < Suc j \<and> sw ! Suc i then r ! Suc i else 0)"
      proof (cases "Suc i = j")
        case eq: True
        then have "r ! i = xs' ! i" using r(3) i len' by simp
        also have "\<dots> = xs ! i + xs ! j" using eq i by (auto simp: xs'_def)
        finally show ?thesis using eq True rj by simp
      next
        case ne: False
        then have c: "Suc i < Suc j \<longleftrightarrow> Suc i < j" by auto
        have "i \<noteq> j - 1" using ne j0 by auto
        then have "xs' ! i = xs ! i" by (simp add: xs'_def)
        then show ?thesis using r(3) i len' c by simp
      qed
    qed
    then show ?thesis using r True iadd len' by simp
  qed
qed

lemma extend_lengths_PyList:
  assumes "length subwords = length ls" "ls \<noteq> [] \<longrightarrow> \<not> subwords ! 0"
  shows "\<exists>r. extend_lengths subwords (PyList ls) = (PyList r, None) \<and> length r = length ls \<and>
           (\<forall>i < length ls. r ! i = ls ! i
               + (if Suc i < length ls \<and> subwords ! Suc i then r ! Suc i else 0))"
  using extend_loop_PyList[of "length subwords" ls subwords] assms
  by (simp add: extend_lengths_def)

subsection \<open>The kept positions\<close>

lemma collect_Inl: "Inl e \<in> set rs \<Longrightarrow> \<exists>e'. collect rs = Inl e'"
  by (induction rs) (auto split: sum.splits)

lemma collect_Inr_nth:
  "collect rs = Inr ys \<Longrightarrow> length ys = length rs \<and> (\<forall>k < length rs. rs ! k = Inr (ys ! k))"
proof (induction rs arbitrary: ys)
  case Nil
  then show ?case by simp
next
  case (Cons r rs)
  then obtain v vs where v: "r = Inr v" "collect rs = Inr vs" "ys = v # vs"
    by (auto split: sum.splits)
  from Cons.IH[OF v(2)] have "length vs = length rs" "\<forall>k < length rs. rs ! k = Inr (vs ! k)"
    by auto
  then show ?case using v by (auto simp: nth_Cons split: nat.splits)
qed

lemma collect_map_elem:
  assumes "collect (map f xs) = Inr ys" "y \<in> set ys"
  shows "\<exists>x \<in> set xs. f x = Inr y"
proof -
  from collect_Inr_nth[OF assms(1)] have
    len: "length ys = length xs" and nth: "\<forall>k < length xs. f (xs ! k) = Inr (ys ! k)"
    by auto
  from assms(2) obtain k where "k < length ys" "ys ! k = y" by (auto simp: in_set_conv_nth)
  then show ?thesis using len nth by (metis nth_mem)
qed

lemma idx_keep_true:
  assumes "idx_keep msk obj = Inr keep" "p \<in> set keep" "p < length obj"
  shows "obj ! p"
proof (cases msk)
  case (MaskList m)
  then show ?thesis using assms by (simp add: np_where_def)
next
  case (MaskArray m)
  let ?a = "map (\<lambda>x. x = 1) m"
  from assms(1) MaskArray obtain bs where bs: "broadcast_and ?a obj = Inr bs" "keep = np_where bs"
    by (auto split: sum.splits)
  from assms(2) bs(2) have p: "p < length bs" "bs ! p" by (auto simp: np_where_def)
  consider "length ?a = length obj" | "length ?a \<noteq> length obj" "length ?a = 1"
    | "length ?a \<noteq> length obj" "length ?a \<noteq> 1" "length obj = 1"
    using bs(1) by (auto simp: broadcast_and_def split: if_splits)
  then show ?thesis
  proof cases
    case 1
    then have "bs = map (\<lambda>(x, y). x \<and> y) (zip ?a obj)" using bs(1) by (simp add: broadcast_and_def)
    then show ?thesis using p assms(3) 1 by simp
  next
    case 2
    then have "bs = map (\<lambda>y. hd ?a \<and> y) obj" using bs(1) by (simp add: broadcast_and_def)
    then show ?thesis using p assms(3) by simp
  next
    case 3
    then have "bs = map (\<lambda>x. x \<and> hd obj) ?a" using bs(1) by (simp add: broadcast_and_def)
    then have "hd obj" using p by simp
    moreover have "p = 0" using assms(3) 3 by simp
    moreover have "obj \<noteq> []" using 3 by auto
    ultimately show ?thesis by (simp add: hd_conv_nth)
  qed
qed

lemma emit_row_label:
  assumes "emit_row i probs pred_label offs lens p = Inr r"
  shows "p < length pred_label \<and> span_label r = pred_label ! p"
  using assms
  by (auto simp: emit_row_def nth_checked_def span_label_def split: sum.splits if_splits)

lemma window_labels_label:
  assumes "window_labels id2label ignore_label i pred_id probs msk offs lens = Inr rows"
    and "r \<in> set rows"
  shows "span_label r = ignore_label"
proof -
  from assms(1) obtain pred_label keep where
    keep: "idx_keep msk (map (\<lambda>p. p = ignore_label) pred_label) = Inr keep"
    and rows: "collect (map (emit_row i probs pred_label offs lens) keep) = Inr rows"
    by (auto simp: window_labels_def split: sum.splits)
  from collect_map_elem[OF rows assms(2)] obtain p where
    p: "p \<in> set keep" "emit_row i probs pred_label offs lens p = Inr r" by blast
  from emit_row_label[OF p(2)] have l: "p < length pred_label" "span_label r = pred_label ! p"
    by auto
  have "map (\<lambda>p. p = ignore_label) pred_label ! p"
    using idx_keep_true[OF keep p(1)] l(1) by simp
  then show ?thesis using l by simp
qed

lemma standoff_windows_label:
  assumes "standoff_windows id2label ignore_label inputs i rows st = (st', Inr out)"
    and "r \<in> set out"
  shows "span_label r = ignore_label"
  using assms
proof (induction rows arbitrary: i st st' out)
  case Nil
  then show ?case by simp
next
  case (Cons row rest)
  let ?f = "inputs ! i"
  from Cons.prems(1) have i: "i < length inputs" by (auto split: if_splits)
  obtain a err where ext: "extend_lengths (input_subwords ?f) (st (lengths ?f)) = (a, err)"
    by (cases "extend_lengths (input_subwords ?f) (st (lengths ?f))")
  from Cons.prems(1) i ext have err: "err = None" by (cases err) auto
  from Cons.prems(1) i ext err obtain these where
    these: "window_labels id2label ignore_label i (fst row) (snd row)
              (attention_mask ?f) (offsets ?f) a = Inr these"
    by (auto split: sum.splits)
  from Cons.prems(1) i ext err these obtain later where
    later: "standoff_windows id2label ignore_label inputs (Suc i) rest (st(lengths ?f := a))
              = (st', Inr later)"
    and out: "out = these @ later"
    by (auto split: sum.splits prod.splits)
  from Cons.prems(2) out consider "r \<in> set these" | "r \<in> set later" by auto
  then show ?case
  proof cases
    case 1
    then show ?thesis using window_labels_label[OF these] by simp
  next
    case 2
    then show ?thesis using Cons.IH[OF later] by simp
  qed
qed

lemma dedup_labels_subset: "set (dedup_labels labels) \<subseteq> set labels"
  using dedup_labels_elem by fastforce

subsection \<open>Unknown label ids\<close>

lemma window_labels_KeyError:
  assumes "p \<in> set pred_id" "id2label p = None"
  shows "\<exists>e. window_labels id2label ignore_label i pred_id probs msk offs lens = Inl e"
proof -
  let ?f = "\<lambda>p. case id2label p of None \<Rightarrow> Inl (KeyError p) | Some l \<Rightarrow> Inr l"
  have "Inl (KeyError p) \<in> set (map ?f pred_id)"
    using assms by (force simp: image_iff)
  from collect_Inl[OF this] obtain e where "collect (map ?f pred_id) = Inl e" by blast
  then show ?thesis by (simp add: window_labels_def)
qed

lemma standoff_windows_KeyError:
  assumes "k < length rows" "p \<in> set (fst (rows ! k))" "id2label p = None"
  shows "\<exists>e. snd (standoff_windows id2label ignore_label inputs i rows st) = Inl e"
  using assms
proof (induction rows arbitrary: i st k)
  case Nil
  then show ?case by simp
next
  case (Cons row rest)
  let ?f = "inputs ! i"
  show ?case
  proof (cases "length inputs \<le> i")
    case True
    then show ?thesis by simp
  next
    case False
    obtain a err where ext: "extend_lengths (input_subwords ?f) (st (lengths ?f)) = (a, err)"
      by (cases "extend_lengths (input_subwords ?f) (st (lengths ?f))")
    show ?thesis
    proof (cases err)
      case (Some e)
      then show ?thesis using False ext by simp
    next
      case None
      show ?thesis
      proof (cases "window_labels id2label ignore_label i (fst row) (snd row)
                      (attention_mask ?f) (offsets ?f) a")
        case (Inl e)
        then show ?thesis using False ext None by simp
      next
        case (Inr these)
        have k: "k \<noteq> 0"
        proof
          assume "k = 0"
          then have "p \<in> set (fst row)" using Cons.prems(2) by simp
          then have "\<exists>e. window_labels id2label ignore_label i (fst row) (snd row)
                      (attention_mask ?f) (offsets ?f) a = Inl e"
            using Cons.prems(3) by (intro window_labels_KeyError[where p = p and id2label = id2label])
          then show False using Inr by simp
        qed
        then obtain k' where k': "k = Suc k'" by (cases k) auto
        then have "k' < length rest" "p \<in> set (fst (rest ! k'))"
          using Cons.prems by auto
        then have "\<exists>e. snd (standoff_windows id2label ignore_label inputs (Suc i) rest
                        (st(lengths ?f := a))) = Inl e"
          using Cons.prems(3) by (intro Cons.IH[where k = k'])
        then obtain e where
          "snd (standoff_windows id2label ignore_label inputs (Suc i) rest (st(lengths ?f := a))) = Inl e"
          by blast
        then show ?thesis using False ext None Inr
          by (auto split: prod.splits sum.splits)
      qed
    qed
  qed
qed

subsection \<open>The store after the loop over the windows\<close>

lemma standoff_windows_store:
  assumes "standoff_windows id2label ignore_label inputs i rows st = (st', Inr out)"
    and "distinct (map lengths inputs)"
  shows "(\<forall>k < length rows. i + k < length inputs) \<and>
         (\<forall>k < length rows. st' (lengths (inputs ! (i + k)))
              = fst (extend_lengths (input_subwords (inputs ! (i + k))) (st (lengths (inputs ! (i + k)))))) \<and>
         (\<forall>a. (\<forall>k < length rows. a \<noteq> lengths (inputs ! (i + k))) \<longrightarrow> st' a = st a)"
  using assms(1)
proof (induction rows arbitrary: i st st' out)
  case Nil
  then show ?case by simp
next
  case (Cons row rest)
  let ?f = "inputs ! i"
  from Cons.prems have i: "i < length inputs" by (auto split: if_splits)
  obtain a err where ext: "extend_lengths (input_subwords ?f) (st (lengths ?f)) = (a, err)"
    by (cases "extend_lengths (input_subwords ?f) (st (lengths ?f))")
  from Cons.prems i ext have err: "err = None" by (cases err) auto
  from Cons.prems i ext err obtain these where
    these: "window_labels id2label ignore_label i (fst row) (snd row)
              (attention_mask ?f) (offsets ?f) a = Inr these"
    by (auto split: sum.splits)
  define st1 where "st1 = st(lengths ?f := a)"
  from Cons.prems i ext err these obtain later where
    later: "standoff_windows id2label ignore_label inputs (Suc i) rest st1 = (st', Inr later)"
    by (auto simp: st1_def split: sum.splits prod.splits)
  from Cons.IH[OF later] have
    len: "\<forall>k < length rest. Suc i + k < length inputs"
    and ext': "\<forall>k < length rest. st' (lengths (inputs ! (Suc i + k)))
          = fst (extend_lengths (input_subwords (inputs ! (Suc i + k))) (st1 (lengths (inputs ! (Suc i + k)))))"
    and frame: "\<forall>a. (\<forall>k < length rest. a \<noteq> lengths (inputs ! (Suc i + k))) \<longrightarrow> st' a = st1 a"
    by auto
  have neq: "\<And>k. k < length rest \<Longrightarrow> lengths (inputs ! (Suc i + k)) \<noteq> lengths ?f"
  proof -
    fix k assume k: "k < length rest"
    then have b1: "Suc i + k < length (map lengths inputs)" and b2: "i < length (map lengths inputs)"
      using len i by simp_all
    have "(map lengths inputs ! (Suc i + k) = map lengths inputs ! i) = (Suc i + k = i)"
      by (rule nth_eq_iff_index_eq[OF assms(2) b1 b2])
    then have "map lengths inputs ! (Suc i + k) \<noteq> map lengths inputs ! i" by simp
    moreover have "map lengths inputs ! (Suc i + k) = lengths (inputs ! (Suc i + k))"
      using b1 by (simp del: add_Suc)
    moreover have "map lengths inputs ! i = lengths ?f" using b2 by simp
    ultimately show "lengths (inputs ! (Suc i + k)) \<noteq> lengths ?f" by simp
  qed
  have first: "st' (lengths ?f) = a"
  proof -
    have "\<forall>k < length rest. lengths ?f \<noteq> lengths (inputs ! (Suc i + k))" using neq by metis
    then have "st' (lengths ?f) = st1 (lengths ?f)" using frame by blast
    then show ?thesis by (simp add: st1_def)
  qed
  have A: "\<forall>k < length (row # rest). st' (lengths (inputs ! (i + k)))
              = fst (extend_lengths (input_subwords (inputs ! (i + k))) (st (lengths (inputs ! (i + k)))))"
  proof (intro allI impI)
    fix k assume k: "k < length (row # rest)"
    show "st' (lengths (inputs ! (i + k)))
              = fst (extend_lengths (input_subwords (inputs ! (i + k))) (st (lengths (inputs ! (i + k)))))"
    proof (cases k)
      case 0
      then show ?thesis using first ext by simp
    next
      case (Suc k')
      then have k': "k' < length rest" using k by simp
      have "st1 (lengths (inputs ! (Suc i + k'))) = st (lengths (inputs ! (Suc i + k')))"
        using neq[OF k'] by (simp add: st1_def)
      then show ?thesis using ext' k' Suc by simp
    qed
  qed
  have B: "\<forall>b. (\<forall>k < length (row # rest). b \<noteq> lengths (inputs ! (i + k))) \<longrightarrow> st' b = st b"
  proof (intro allI impI)
    fix b assume b: "\<forall>k < length (row # rest). b \<noteq> lengths (inputs ! (i + k))"
    then have "b \<noteq> lengths ?f" by force
    moreover have "\<forall>k < length rest. b \<noteq> lengths (inputs ! (Suc i + k))"
    proof (intro allI impI)
      fix k assume "k < length rest"
      then have "Suc k < length (row # rest)" by simp
      then have "b \<noteq> lengths (inputs ! (i + Suc k))" using b by blast
      then show "b \<noteq> lengths (inputs ! (Suc i + k))" by simp
    qed
    ultimately show "st' b = st b" using frame by (simp add: st1_def)
  qed
  have C: "\<forall>k < length (row # rest). i + k < length inputs"
  proof (intro allI impI)
    fix k assume k: "k < length (row # rest)"
    show "i + k < length inputs"
    proof (cases k)
      case 0
      then show ?thesis using i by simp
    next
      case (Suc k')
      then show ?thesis using len k by simp
    qed
  qed
  show ?case using C A B by blast
qed

lemma logits_to_standoff_store:
  assumes "logits_to_standoff id2label logits inputs ignore_label st = (st', Inr rows)"
    and "distinct (map lengths inputs)"
    and "i < length logits"
  shows "st' (lengths (inputs ! i))
           = fst (extend_lengths (input_subwords (inputs ! i)) (st (lengths (inputs ! i))))"
proof -
  from assms(1) obtain pred labels where
    pred: "collect (map (\<lambda>win. collect (map argmax_row win)) logits) = Inr pred"
    and w: "standoff_windows id2label ignore_label inputs 0
          (map (\<lambda>win. (map fst win, map snd win)) pred) st = (st', Inr labels)"
    by (auto simp: logits_to_standoff_def split: sum.splits prod.splits)
  from collect_Inr_nth[OF pred] have "length pred = length logits" by simp
  then have "i < length (map (\<lambda>win. (map fst win, map snd win)) pred)" using assms(3) by simp
  with standoff_windows_store[OF w assms(2)] show ?thesis by force
qed

subsection \<open>The deduplication of \<^verbatim>\<open>model.py\<close>\<close>

lemma unique_last_idx_set:
  "set (unique_last_idx offs) = last_index offs ` set offs"
  by (simp add: unique_last_idx_eq)



lemma unique_last_idx_bound: "i \<in> set (unique_last_idx offs) \<Longrightarrow> i < length offs"
  using last_index_props(1) by (auto simp: unique_last_idx_set)

lemma unique_last_idx_is_last:
  assumes "i \<in> set (unique_last_idx offs)"
  shows "i = last_index offs (offs ! i)"
proof -
  from assms obtain v where v: "v \<in> set offs" "i = last_index offs v"
    by (auto simp: unique_last_idx_set)
  then show ?thesis using last_index_props(2)[OF v(1)] by simp
qed

lemma select_unique_offsets:
  "distinct (select_unique (unique_last_idx offs) offs) \<and>
   set (select_unique (unique_last_idx offs) offs) = set offs"
proof
  let ?u = "unique_last_idx offs"
  let ?is = "filter (\<lambda>i. i \<in> set ?u) [0 ..< length offs]"
  have "inj_on (\<lambda>i. offs ! i) (set ?is)"
  proof (rule inj_onI)
    fix i i' assume a: "i \<in> set ?is" "i' \<in> set ?is" "offs ! i = offs ! i'"
    have e1: "i = last_index offs (offs ! i)"
      using a(1) by (intro unique_last_idx_is_last) simp
    have e2: "i' = last_index offs (offs ! i')"
      using a(2) by (intro unique_last_idx_is_last) simp
    have "last_index offs (offs ! i) = last_index offs (offs ! i')"
      by (simp only: a(3))
    then show "i = i'" using e1 e2 by metis
  qed
  then show "distinct (select_unique ?u offs)"
    by (simp add: select_unique_def distinct_map)
  have "set ?is = set ?u" using unique_last_idx_bound by auto
  then have "set (select_unique ?u offs) = (\<lambda>i. offs ! i) ` last_index offs ` set offs"
    by (simp add: select_unique_def unique_last_idx_set)
  also have "\<dots> = set offs"
  proof (rule set_eqI)
    fix v
    show "v \<in> (\<lambda>i. offs ! i) ` last_index offs ` set offs \<longleftrightarrow> v \<in> set offs"
    proof
      assume "v \<in> (\<lambda>i. offs ! i) ` last_index offs ` set offs"
      then obtain w where w: "w \<in> set offs" "v = offs ! last_index offs w" by blast
      then show "v \<in> set offs" using last_index_props(2)[OF w(1)] by simp
    next
      assume v: "v \<in> set offs"
      then have "v = offs ! last_index offs v" using last_index_props(2)[OF v] by simp
      then show "v \<in> (\<lambda>i. offs ! i) ` last_index offs ` set offs" using v by blast
    qed
  qed
  finally show "set (select_unique ?u offs) = set offs" .
qed





subsection \<open>Features with a Python list as attention mask\<close>

lemma idx_keep_MaskList: "idx_keep (MaskList m) idxObject = Inr []"
  by (simp add: np_where_def filter_empty_conv)

lemma window_labels_MaskList:
  assumes "window_labels id2label ignore_label i pred_id probs (MaskList m) offs lens = Inr rows"
  shows "rows = []"
proof -
  from assms obtain pred_label where
    "(case idx_keep (MaskList m) (map (\<lambda>p. p = ignore_label) pred_label) of
        Inl e \<Rightarrow> Inl e
      | Inr idxKeep \<Rightarrow> collect (map (emit_row i probs pred_label offs lens) idxKeep)) = Inr rows"
    unfolding window_labels_def by (cases "collect (map (\<lambda>p. case id2label p of None \<Rightarrow> Inl (KeyError p)
        | Some l \<Rightarrow> Inr l) pred_id)") simp_all
  then show ?thesis by (simp only: idx_keep_MaskList sum.case list.map collect.simps) simp
qed

lemma standoff_windows_MaskList:
  assumes "\<forall>f \<in> set inputs. \<exists>m. attention_mask f = MaskList m"
    and "standoff_windows id2label ignore_label inputs i rows st = (st', Inr labels)"
  shows "labels = []"
  using assms(2)
proof (induction rows arbitrary: i st st' labels)
  case Nil
  then show ?case by simp
next
  case (Cons row rest)
  let ?f = "inputs ! i"
  from Cons.prems have i: "i < length inputs" by (auto split: if_splits)
  then obtain m where m: "attention_mask ?f = MaskList m" using assms(1) by force
  obtain a err where ext: "extend_lengths (input_subwords ?f) (st (lengths ?f)) = (a, err)"
    by (cases "extend_lengths (input_subwords ?f) (st (lengths ?f))")
  from Cons.prems i ext have err: "err = None" by (cases err) auto
  from Cons.prems i ext err obtain these where
    these: "window_labels id2label ignore_label i (fst row) (snd row)
              (attention_mask ?f) (offsets ?f) a = Inr these"
    by (auto split: sum.splits)
  from Cons.prems i ext err these obtain later where
    later: "standoff_windows id2label ignore_label inputs (Suc i) rest (st(lengths ?f := a))
              = (st', Inr later)"
    and out: "labels = these @ later"
    by (auto split: sum.splits prod.splits)
  have "these = []" using these m window_labels_MaskList by metis
  moreover have "later = []" using Cons.IH[OF later] .
  ultimately show ?case using out by simp
qed

lemma dedup_labels_Nil: "dedup_labels [] = []"
  by (simp add: dedup_labels_def unique_last_idx_def np_unique_index_def)

subsection \<open>Deduplication keeps the last candidate\<close>






subsection \<open>Length extension is not idempotent\<close>

text \<open>
  Claim C7, as amended. For a lengths list and as many subword flags, the first flag
  False, the extension succeeds on the list and again on its result, and each
  application adds to every position whose successor is a continuation the extended
  length of that successor and leaves every other position as it was. So a second
  application changes again every position followed by a continuation of non-zero
  length; only the positions not followed by a continuation are stable.
\<close>

theorem extend_lengths_twice:
  assumes "length subwords = length ls" "ls \<noteq> [] \<longrightarrow> \<not> subwords ! 0"
  shows "\<exists>r1 r2. extend_lengths subwords (PyList ls) = (PyList r1, None) \<and>
           extend_lengths subwords (PyList r1) = (PyList r2, None) \<and>
           length r1 = length ls \<and> length r2 = length ls \<and>
           (\<forall>i < length ls. r1 ! i = ls ! i
               + (if Suc i < length ls \<and> subwords ! Suc i then r1 ! Suc i else 0)) \<and>
           (\<forall>i < length ls. r2 ! i = r1 ! i
               + (if Suc i < length ls \<and> subwords ! Suc i then r2 ! Suc i else 0))"
proof -
  from extend_lengths_PyList[OF assms] obtain r1 where
    r1: "extend_lengths subwords (PyList ls) = (PyList r1, None)" "length r1 = length ls"
        "\<forall>i < length ls. r1 ! i = ls ! i
               + (if Suc i < length ls \<and> subwords ! Suc i then r1 ! Suc i else 0)"
    by blast
  have "length subwords = length r1" "r1 \<noteq> [] \<longrightarrow> \<not> subwords ! 0"
    using assms r1(2) by auto
  from extend_lengths_PyList[OF this] obtain r2 where
    r2: "extend_lengths subwords (PyList r1) = (PyList r2, None)" "length r2 = length r1"
        "\<forall>i < length r1. r2 ! i = r1 ! i
               + (if Suc i < length r1 \<and> subwords ! Suc i then r2 ! Suc i else 0)"
    by blast
  show ?thesis
  proof (intro exI conjI)
    show "extend_lengths subwords (PyList ls) = (PyList r1, None)" by (rule r1(1))
    show "extend_lengths subwords (PyList r1) = (PyList r2, None)" by (rule r2(1))
    show "length r1 = length ls" by (rule r1(2))
    show "length r2 = length ls" by (simp only: r2(2) r1(2))
    show "\<forall>i < length ls. r1 ! i = ls ! i
               + (if Suc i < length ls \<and> subwords ! Suc i then r1 ! Suc i else 0)"
      by (rule r1(3))
    show "\<forall>i < length ls. r2 ! i = r1 ! i
               + (if Suc i < length ls \<and> subwords ! Suc i then r2 ! Suc i else 0)"
      using r2(3) unfolding r1(2) .
  qed
qed

theorem extend_lengths_twice_witness:
  "\<exists>r1 r2. extend_lengths [False, True, True, False, True] (PyList [4, 2, 3, 1, 1]) = (PyList r1, None) \<and>
           extend_lengths [False, True, True, False, True] (PyList r1) = (PyList r2, None) \<and>
           r1 = [9, 5, 3, 2, 1] \<and> r2 ! 2 = r1 ! 2 \<and> r2 ! 0 = r1 ! 0 + r2 ! 1"
proof -
  have e: "extend_lengths [False, True, True, False, True] (PyList [4, 2, 3, 1, 1])
             = (PyList [9, 5, 3, 2, 1], None)"
    by code_simp
  from extend_lengths_twice[of "[False, True, True, False, True]" "[4, 2, 3, 1, 1]"]
  obtain r1 r2 where
    r: "extend_lengths [False, True, True, False, True] (PyList [4, 2, 3, 1, 1]) = (PyList r1, None)"
       "extend_lengths [False, True, True, False, True] (PyList r1) = (PyList r2, None)"
       "\<forall>i < length [4, 2, 3, 1, 1::int]. r2 ! i = r1 ! i
               + (if Suc i < length [4, 2, 3, 1, 1::int] \<and> [False, True, True, False, True] ! Suc i
                  then r2 ! Suc i else 0)"
    by auto
  have r1: "r1 = [9, 5, 3, 2, 1]" using r(1) e by simp
  have "r2 ! 2 = r1 ! 2" using r(3)[rule_format, of 2] by simp
  moreover have "r2 ! 0 = r1 ! 0 + r2 ! 1" using r(3)[rule_format, of 0] by simp
  ultimately show ?thesis using r r1 by blast
qed

text \<open>
  The claim as stated fails: on the lengths 4, 2 with the second position a continuation
  the first application gives 6, 2 and the second gives 8, 2.
\<close>

theorem extend_lengths_twice_counterexample:
  "extend_lengths [False, True] (PyList [4, 2]) = (PyList [6, 2], None) \<and>
   extend_lengths [False, True] (PyList [6, 2]) = (PyList [8, 2], None) \<and>
   [8, 2] \<noteq> [6, 2::int]"
  by code_simp

subsection \<open>The non-entity filter\<close>

text \<open>
  On numpy arrays the filter of lines 268 to 272 keeps the positions whose label equals
  \<^verbatim>\<open>ignore_label\<close>: every span that \<^verbatim>\<open>_logits_to_standoff\<close> returns carries that label.
\<close>

lemma logits_to_standoff_keeps_only_ignored:
  assumes "logits_to_standoff id2label logits inputs ignore_label st = (st', Inr rows)"
  shows "\<forall>r \<in> set rows. span_label r = ignore_label"
proof
  fix r assume r: "r \<in> set rows"
  from assms obtain pred labels where
    w: "standoff_windows id2label ignore_label inputs 0
          (map (\<lambda>win. (map fst win, map snd win)) pred) st = (st', Inr labels)"
    and rows: "rows = dedup_labels labels"
    by (auto simp: logits_to_standoff_def split: sum.splits prod.splits)
  from r rows have "r \<in> set labels" using dedup_labels_subset by blast
  then show "span_label r = ignore_label" by (rule standoff_windows_label[OF w])
qed

lemma demo_np_result:
  "snd (logits_to_standoff id2label_demo logits_demo inputs_np ''O'' store_np) = Inr [(1, ''O'', 5, 5)]"
  by code_simp





text \<open>
  So \<^verbatim>\<open>predict\<close>, which builds its features with \<^verbatim>\<open>_split_text_into_segments\<close>, returns
  no span whenever it returns.
\<close>

lemma predict_emits_nothing:
  assumes "predict tokenize encode M model id2label text feature_overlap = Inr rows"
  shows "rows = []"
proof -
  from assms obtain inputs where
    inputs: "split_text_into_segments encode (tokenize text) M text feature_overlap = Inr inputs"
    and r: "snd (logits_to_standoff id2label (model inputs)
                 (map (feature_at inputs) [0 ..< length inputs]) ''O''
                 (\<lambda>a. if a < length inputs then lengths (inputs ! a) else PyList [])) = Inr rows"
    by (auto simp: predict_def split: sum.splits)
  from inputs obtain bounds where "inputs = map (segment_feature encode text) bounds"
    by (auto simp: split_text_into_segments_def split: sum.splits)
  then have masks: "\<forall>f \<in> set (map (feature_at inputs) [0 ..< length inputs]).
      \<exists>m. attention_mask f = MaskList m"
    by (auto simp: feature_at_def segment_feature_def Let_def)
  from r obtain pred' labels' st'' where
    w: "standoff_windows id2label ''O'' (map (feature_at inputs) [0 ..< length inputs]) 0
          (map (\<lambda>win. (map fst win, map snd win)) pred')
          (\<lambda>a. if a < length inputs then lengths (inputs ! a) else PyList []) = (st'', Inr labels')"
    and rows: "rows = dedup_labels labels'"
    by (auto simp: logits_to_standoff_def split: sum.splits prod.splits)
  have "labels' = []" using standoff_windows_MaskList[OF masks w] .
  then show ?thesis using rows by (simp add: dedup_labels_Nil)
qed

subsection \<open>Unknown label ids abort the call\<close>

text \<open>
  Claim C9. If the label id predicted at any position of any window (kept or not) is
  missing from \<^verbatim>\<open>id2label\<close>, then \<^verbatim>\<open>_logits_to_standoff\<close>, and with it
  \<^verbatim>\<open>predict\<close>, ends in an exception and returns no spans: the lookup of line 266
  raises KeyError, unless an earlier step has raised already. No label is substituted.
\<close>

theorem logits_to_standoff_unknown_label:
  assumes w: "w < length logits" and p: "p < length (logits ! w)"
    and am: "argmax_row (logits ! w ! p) = Inr (l, c)"
    and none: "id2label l = None"
  shows "\<exists>e. snd (logits_to_standoff id2label logits inputs ignore_label st) = Inl e"
proof (cases "collect (map (\<lambda>win. collect (map argmax_row win)) logits)")
  case (Inl e)
  then show ?thesis by (simp add: logits_to_standoff_def)
next
  case (Inr pred)
  from collect_Inr_nth[OF Inr] w have
    lp: "length pred = length logits" and
    win: "collect (map argmax_row (logits ! w)) = Inr (pred ! w)"
    by auto
  from collect_Inr_nth[OF win] p have
    lw: "length (pred ! w) = length (logits ! w)" and "argmax_row (logits ! w ! p) = Inr (pred ! w ! p)"
    by auto
  then have "pred ! w ! p = (l, c)" using am by simp
  then have "l \<in> set (map fst (pred ! w))" using p lw by (metis fst_conv nth_mem image_eqI set_map)
  then have mem: "l \<in> set (fst (map (\<lambda>win. (map fst win, map snd win)) pred ! w))"
    using w lp by simp
  have wl: "w < length (map (\<lambda>win. (map fst win, map snd win)) pred)" using w lp by simp
  have "\<exists>e. snd (standoff_windows id2label ignore_label inputs 0
            (map (\<lambda>win. (map fst win, map snd win)) pred) st) = Inl e"
    using wl mem none
    by (intro standoff_windows_KeyError[where p = l and k = w and id2label = id2label])
  then obtain e where
    "snd (standoff_windows id2label ignore_label inputs 0
            (map (\<lambda>win. (map fst win, map snd win)) pred) st) = Inl e"
    by blast
  then show ?thesis using Inr
    by (auto simp: logits_to_standoff_def split: prod.splits sum.splits)
qed

lemma demo_unknown_result:
  "snd (logits_to_standoff [0 \<mapsto> ''O''] logits_demo inputs_list ''O'' store_list) = Inl (KeyError 1)"
  by code_simp

theorem logits_to_standoff_unknown_label_witness:
  "snd (logits_to_standoff [0 \<mapsto> ''O''] logits_demo inputs_list ''O'' store_list) = Inl (KeyError 1) \<and>
   (\<exists>e. snd (logits_to_standoff [0 \<mapsto> ''O''] logits_demo inputs_np ''O'' store_np) = Inl e)"
proof -
  have "(0::nat) < length logits_demo" "(0::nat) < length (logits_demo ! 0)"
    by (simp_all add: logits_demo_def)
  moreover have "argmax_row (logits_demo ! 0 ! 0) = Inr (1, 1)"
    by (simp add: logits_demo_def argmax_row_def)
  moreover have "[0 \<mapsto> ''O''] (1::nat) = None" by simp
  ultimately have "\<exists>e. snd (logits_to_standoff [0 \<mapsto> ''O''] logits_demo inputs_np ''O'' store_np) = Inl e"
    by (rule logits_to_standoff_unknown_label)
  then show ?thesis using demo_unknown_result by simp
qed


subsection \<open>Texts without tokens\<close>

lemma split_text_into_segments_no_tokens:
  assumes "enc_offsets encoded = []"
  shows "split_text_into_segments encode encoded M text feature_overlap = Inl IndexError"
  using assms
  by (simp add: split_text_into_segments_def segment_bounds_def word_start_rows_def)

text \<open>
  Claim C8 states that a text without tokens gives no window and, downstream, no
  predicted span and no error. \<^verbatim>\<open>split_by_overlap\<close> does return the empty list of
  windows (lines 114 to 116). But \<^verbatim>\<open>predict\<close> never calls it: it splits with
  \<^verbatim>\<open>_split_text_into_segments\<close>, which has no such guard and raises IndexError at line
  173 when the tokenizer finds no token, so the call ends in that exception.
\<close>

theorem predict_no_tokens_raises:
  assumes "length (tokens_idx tk) = 0" and "enc_offsets (tokenize text) = []"
  shows "split_by_overlap tk text S L = Inr [] \<and>
         predict tokenize encode M model id2label text feature_overlap = Inl IndexError"
  using assms split_text_into_segments_no_tokens[of "tokenize text" encode M "text" feature_overlap]
  by (simp add: split_by_overlap_def predict_def)

theorem predict_no_tokens_raises_witness:
  "split_by_overlap tk_empty [] 20 100 = Inr [] \<and>
   predict (\<lambda>s. enc_empty) (\<lambda>s. enc_empty) 510 no_scores id2label_demo [] None = Inl IndexError"
  using predict_no_tokens_raises[of tk_empty "\<lambda>s. enc_empty" "[]" 20 100 "\<lambda>s. enc_empty" 510
      no_scores id2label_demo None]
  by (simp add: tk_empty_def enc_empty_def)

subsection \<open>The lengths arrays are extended in place\<close>

text \<open>
  Claim C10. The span reconstruction writes the extended lengths into the array that
  the feature refers to. Where the features refer to pairwise different arrays and two
  calls over the same features both return, after the first call the array of every
  window holds the extension of its former content, and after the second call it
  holds the extension of that already extended content.
\<close>

theorem logits_to_standoff_extends_in_place:
  assumes "logits_to_standoff id2label logits inputs ignore_label st = (st1, Inr rows1)"
    and "logits_to_standoff id2label logits inputs ignore_label st1 = (st2, Inr rows2)"
    and "distinct (map lengths inputs)"
  shows "\<forall>i < length logits.
           st1 (lengths (inputs ! i))
             = fst (extend_lengths (input_subwords (inputs ! i)) (st (lengths (inputs ! i)))) \<and>
           st2 (lengths (inputs ! i))
             = fst (extend_lengths (input_subwords (inputs ! i)) (st1 (lengths (inputs ! i))))"
  using logits_to_standoff_store[OF assms(1) assms(3)] logits_to_standoff_store[OF assms(2) assms(3)]
  by blast

lemma demo_list_first:
  "snd (logits_to_standoff id2label_demo logits_demo inputs_list ''O'' store_list) = Inr []"
  "fst (logits_to_standoff id2label_demo logits_demo inputs_list ''O'' store_list) 0 = PyList [6, 2]"
  by code_simp+

lemma demo_list_second:
  "snd (logits_to_standoff id2label_demo logits_demo inputs_list ''O''
          (fst (logits_to_standoff id2label_demo logits_demo inputs_list ''O'' store_list))) = Inr []"
  "fst (logits_to_standoff id2label_demo logits_demo inputs_list ''O''
          (fst (logits_to_standoff id2label_demo logits_demo inputs_list ''O'' store_list))) 0
     = PyList [8, 2]"
  by code_simp+

theorem logits_to_standoff_extends_in_place_witness:
  "store_list (lengths (inputs_list ! 0)) = PyList [4, 2] \<and>
   fst (logits_to_standoff id2label_demo logits_demo inputs_list ''O'' store_list) (lengths (inputs_list ! 0))
     = fst (extend_lengths [False, True] (PyList [4, 2])) \<and>
   fst (extend_lengths [False, True] (PyList [4, 2])) = PyList [6, 2] \<and>
   fst (logits_to_standoff id2label_demo logits_demo inputs_list ''O''
          (fst (logits_to_standoff id2label_demo logits_demo inputs_list ''O'' store_list)))
       (lengths (inputs_list ! 0))
     = PyList [8, 2]"
proof -
  let ?st1 = "fst (logits_to_standoff id2label_demo logits_demo inputs_list ''O'' store_list)"
  let ?st2 = "fst (logits_to_standoff id2label_demo logits_demo inputs_list ''O'' ?st1)"
  have c1: "logits_to_standoff id2label_demo logits_demo inputs_list ''O'' store_list = (?st1, Inr [])"
    using demo_list_first(1) by (simp add: prod_eq_iff)
  have c2: "logits_to_standoff id2label_demo logits_demo inputs_list ''O'' ?st1 = (?st2, Inr [])"
    using demo_list_second(1) by (simp add: prod_eq_iff)
  have d: "distinct (map lengths inputs_list)" by (simp add: inputs_list_def)
  have l: "(0::nat) < length logits_demo" by (simp add: logits_demo_def)
  have i0: "lengths (inputs_list ! 0) = 0" "input_subwords (inputs_list ! 0) = [False, True]"
    by (simp_all add: inputs_list_def)
  have s0: "store_list 0 = PyList [4, 2]" by (simp add: store_list_def)
  have e: "fst (extend_lengths [False, True] (PyList [4, 2])) = PyList [6, 2]" by code_simp
  from logits_to_standoff_extends_in_place[OF c1 c2 d, rule_format, OF l]
  show ?thesis using i0 s0 e demo_list_second(2) by simp
qed

section \<open>Properties of the segment splitter\<close>

lemma seq_len_of_floor:
  assumes "f \<le> 1" "0 \<le> M"
  shows "seq_len_of M (Some f) = \<lfloor>(1 - f) * of_int M\<rfloor>"
proof -
  have "0 \<le> (1 - f) * of_int M" using assms by simp
  then show ?thesis by (simp add: seq_len_of_def py_int_def)
qed

lemma segment_bounds_ignores_overlap:
  "segment_bounds encoded M N feature_overlap = segment_bounds encoded M N None"
  by (simp add: segment_bounds_def Let_def split: sum.splits)

lemma segment_bounds_adjacent:
  assumes "segment_bounds encoded M N feature_overlap = Inr bounds" "Suc i < length bounds"
  shows "snd (bounds ! i) = fst (bounds ! Suc i)"
proof -
  from assms(1) obtain stacked n where
    b: "bounds = map (\<lambda>i. (stacked ! i, stacked ! (i + 1))) [0 ..< n]"
    by (auto simp: segment_bounds_def Let_def split: sum.splits)
  then have "Suc i < n" using assms(2) by simp
  then show ?thesis unfolding b by simp
qed


text \<open>
  Claim C4 states that an overlap fraction \<open>f\<close> sets the step to
  \<open>\<lfloor>(1 - f) * L\<rfloor>\<close>, so that consecutive windows overlap. The code computes that
  number (\<open>seq_len\<close>, lines 179 to 182) and never reads it: the segments are the same
  for every overlap fraction as for none, and every segment ends at the offset where the
  next one starts, so no two consecutive segments share a character.
\<close>

theorem split_text_into_segments_ignores_overlap:
  "split_text_into_segments encode encoded M text feature_overlap
     = split_text_into_segments encode encoded M text None \<and>
   (\<forall>bounds i. segment_bounds encoded M (int (length text)) feature_overlap = Inr bounds \<and>
        Suc i < length bounds \<longrightarrow> snd (bounds ! i) = fst (bounds ! Suc i))"
proof
  show "split_text_into_segments encode encoded M text feature_overlap
     = split_text_into_segments encode encoded M text None"
    unfolding split_text_into_segments_def
    by (simp only: segment_bounds_ignores_overlap[of encoded M "int (length text)" feature_overlap])
  show "\<forall>bounds i. segment_bounds encoded M (int (length text)) feature_overlap = Inr bounds \<and>
        Suc i < length bounds \<longrightarrow> snd (bounds ! i) = fst (bounds ! Suc i)"
    using segment_bounds_adjacent by blast
qed

lemma demo_bounds:
  "segment_bounds enc_demo 4 (int (length ''ab cdef gh'')) (Some (1 / 2)) = Inr [(0, 8), (8, 10)]"
  "segment_bounds enc_demo 4 (int (length ''ab cdef gh'')) None = Inr [(0, 8), (8, 10)]"
  by code_simp+

theorem split_text_into_segments_ignores_overlap_witness:
  "segment_bounds enc_demo 4 (int (length ''ab cdef gh'')) (Some (1 / 2)) = Inr [(0, 8), (8, 10)] \<and>
   split_text_into_segments (\<lambda>s. enc_demo) enc_demo 4 ''ab cdef gh'' (Some (1 / 2))
     = split_text_into_segments (\<lambda>s. enc_demo) enc_demo 4 ''ab cdef gh'' None \<and>
   snd ([(0, 8), (8, 10 :: int)] ! 0) = (fst ([(0, 8), (8, 10)] ! Suc 0) :: int)"
proof -
  have "Suc 0 < length [(0, 8), (8, 10 :: int)]" by simp
  with split_text_into_segments_ignores_overlap[of "\<lambda>s. enc_demo" enc_demo 4 "''ab cdef gh''" "Some (1 / 2)"]
    demo_bounds(1)
  show ?thesis by simp
qed

end
